theory Spec2Isabelle
  imports
    Main
    "HOL-Library.Multiset"
    "HOL-Library.Char_ord"
    "HOL-Library.List_Lexorder"
    "HOL-Library.Product_Lexorder"
begin

section \<open>Data model of \<open>examen2parcial.py\<close>\<close>

text \<open>
  A task is the dict built in \<open>add_task\<close> (lines 35-40): the keys \<open>name\<close>,
  \<open>priority\<close>, \<open>dependencies\<close> and \<open>due_date\<close>. Strings are \<open>string\<close>, a
  character standing for a code point below 256; \<open>due_date\<close> is a string or \<open>None\<close>.
  Two such dicts are \<open>==\<close> in Python exactly when the four values are, which is equality
  of the record.
\<close>

record task =
  name :: string
  priority :: int
  dependencies :: "string list"
  due_date :: "string option"

text \<open>
  An element of the list \<open>self.tasks\<close> is a pair of a priority and a task. \<open>add_task\<close>
  (line 41) and \<open>complete_task\<close> (line 61) build it as a Python tuple; \<open>json.load\<close>
  (line 17) yields it as a Python list. The two kinds are kept apart, because Python refuses
  to order a tuple against a list.
\<close>

datatype seq_kind = Tuple | List

datatype entry = Entry (kind: seq_kind) (prio: int) (task: task)

text \<open>The exceptions the program can raise, and the two messages of its \<open>ValueError\<close>.\<close>

datatype value_msg = EmptyName | PriorityNotInt

datatype py_error =
  ValueError value_msg
  | TypeError
  | IndexError
  | JSONDecodeError
  | AttributeError

datatype 'a result = Returned 'a | Raised py_error

text \<open>
  Python values that are passed as the \<open>priority\<close> argument or returned by a method.
  A float is a mantissa and a binary exponent: \<open>PyFloat 3 (-1)\<close> is \<open>1.5\<close>.
\<close>

datatype py_value =
  PyNone
  | PyBool bool
  | PyInt int
  | PyFloat int int
  | PyStr string
  | PyTask task

text \<open>
  What the methods print. \<open>TaskLine\<close> holds the four values that line 48 formats (name,
  heap priority, due date, dependencies); the rendering of the f-string is not modelled.
\<close>

datatype message =
  TaskLine string int "string option" "string list"
  | NotFound string
  | Blocked
  | NoPending

text \<open>
  The file \<open>self.filename\<close>. \<open>Missing\<close>: \<open>os.path.exists\<close> is false. \<open>NotJSON\<close>: the
  text is rejected by \<open>json.load\<close>. \<open>NonObject\<close>: the text is JSON, but not a JSON object
  (an array, a string, a number, \<open>true\<close>, \<open>false\<close>, \<open>null\<close>). \<open>Doc ts cs\<close>: a JSON
  object whose key \<open>"tasks"\<close>, when present (\<open>Some\<close>), holds an array of
  \<open>[priority, task]\<close> pairs, and whose key \<open>"completed_tasks"\<close>, when present, holds an
  array of strings. That array is only ever read through \<open>set(...)\<close> (line 19) and written
  from \<open>list(self.completed_tasks)\<close> (line 25), whose order Python does not fix, so it is
  kept as the set of its elements. Any other key of the object is never read, so that
  \<open>Doc None None\<close> stands for \<open>{}\<close> as well as for an object that holds other keys only.
  JSON objects whose two keys hold values of another shape are outside the model.
\<close>

datatype store_file =
  Missing
  | NotJSON
  | NonObject
  | Doc "(int \<times> task) list option" "string set option"

text \<open>The object \<open>self\<close>, together with the content of its backing file.\<close>

record manager =
  tasks :: "entry list"
  completed_tasks :: "string set"
  disk :: store_file

section \<open>Ordering of heap elements\<close>

text \<open>
  \<open>x < y\<close> on two elements of \<open>self.tasks\<close>. A tuple and a list are not ordered
  (\<open>TypeError\<close>). Two sequences of the same kind are compared at the first position where
  they are not \<open>==\<close>: the priorities when they differ; otherwise the two dicts, and
  \<open>dict < dict\<close> is a \<open>TypeError\<close>. When both positions are equal, \<open>x < y\<close> is false.
\<close>

definition entry_lt :: "entry \<Rightarrow> entry \<Rightarrow> py_error + bool" where
  "entry_lt x y =
     (if kind x \<noteq> kind y then Inl TypeError
      else if prio x \<noteq> prio y then Inr (prio x < prio y)
      else if task x = task y then Inr False
      else Inl TypeError)"

section \<open>The module \<open>heapq\<close>\<close>

text \<open>
  \<open>heapq\<close> as CPython runs it. The functions work on the list in place, so each returns
  the list as it is left, also when a comparison raises. A sift exchanges the two slots
  it visits, as the accelerator module does; \<open>Lib/heapq.py\<close> moves a hole instead, makes
  the same comparisons in the same order, and leaves the same list whenever no
  comparison raises.
\<close>

definition swap :: "'a list \<Rightarrow> nat \<Rightarrow> nat \<Rightarrow> 'a list" where
  "swap h i j = h[i := h ! j, j := h ! i]"

function siftdown :: "entry list \<Rightarrow> nat \<Rightarrow> nat \<Rightarrow> unit result \<times> entry list" where
  "siftdown h startpos pos =
     (if length h \<le> pos then (Raised IndexError, h)
      else if startpos < pos then
        (case entry_lt (h ! pos) (h ! ((pos - 1) div 2)) of
           Inl e \<Rightarrow> (Raised e, h)
         | Inr False \<Rightarrow> (Returned (), h)
         | Inr True \<Rightarrow> siftdown (swap h pos ((pos - 1) div 2)) startpos ((pos - 1) div 2))
      else (Returned (), h))"
  by pat_completeness auto
termination
  by (relation "measure (\<lambda>(h, startpos, pos). pos)") auto

text \<open>
  The first loop of \<open>_siftup\<close>: the smaller child is bubbled up until \<open>pos\<close> is a leaf.
  It returns the position reached.
\<close>

function bubble_up :: "entry list \<Rightarrow> nat \<Rightarrow> nat result \<times> entry list" where
  "bubble_up h pos =
     (if 2 * pos + 1 < length h then
        (if 2 * pos + 2 < length h then
           (case entry_lt (h ! (2 * pos + 1)) (h ! (2 * pos + 2)) of
              Inl e \<Rightarrow> (Raised e, h)
            | Inr True \<Rightarrow> bubble_up (swap h pos (2 * pos + 1)) (2 * pos + 1)
            | Inr False \<Rightarrow> bubble_up (swap h pos (2 * pos + 2)) (2 * pos + 2))
         else bubble_up (swap h pos (2 * pos + 1)) (2 * pos + 1))
      else (Returned pos, h))"
  by pat_completeness auto
termination
  by (relation "measure (\<lambda>(h, pos). length h - pos)") (auto simp: swap_def)

definition siftup :: "entry list \<Rightarrow> nat \<Rightarrow> unit result \<times> entry list" where
  "siftup h pos =
     (if length h \<le> pos then (Raised IndexError, h)
      else case bubble_up h pos of
             (Raised e, h') \<Rightarrow> (Raised e, h')
           | (Returned leaf, h') \<Rightarrow> siftdown h' pos leaf)"

definition heappush :: "entry list \<Rightarrow> entry \<Rightarrow> unit result \<times> entry list" where
  "heappush h item = siftdown (h @ [item]) 0 (length h)"

definition heappop :: "entry list \<Rightarrow> entry result \<times> entry list" where
  "heappop h =
     (if h = [] then (Raised IndexError, h)
      else if butlast h = [] then (Returned (last h), [])
      else case siftup ((butlast h)[0 := last h]) 0 of
             (Raised e, h') \<Rightarrow> (Raised e, h')
           | (Returned u, h') \<Rightarrow> (Returned (butlast h ! 0), h'))"

text \<open>\<open>for i in reversed(range(n//2)): _siftup(x, i)\<close>; \<open>heapify_from h k\<close> runs the
  positions \<open>k - 1\<close> down to \<open>0\<close>.\<close>

fun heapify_from :: "entry list \<Rightarrow> nat \<Rightarrow> unit result \<times> entry list" where
  "heapify_from h 0 = (Returned (), h)"
| "heapify_from h (Suc i) =
     (case siftup h i of
        (Raised e, h') \<Rightarrow> (Raised e, h')
      | (Returned u, h') \<Rightarrow> heapify_from h' i)"

definition heapify :: "entry list \<Rightarrow> unit result \<times> entry list" where
  "heapify h = heapify_from h (length h div 2)"


subsection \<open>The sifts permute the list\<close>

declare siftdown.simps [simp del] bubble_up.simps [simp del]

lemma length_swap [simp]: "length (swap h i j) = length h"
  by (simp add: swap_def)

lemma mset_swap_entries [simp]: "i < length h \<Longrightarrow> j < length h \<Longrightarrow> mset (swap h i j) = mset h"
  unfolding swap_def by (rule mset_swap)

lemma siftdown_mset: "mset (snd (siftdown h s p)) = mset h"
proof (induction h s p rule: siftdown.induct)
  case (1 h startpos pos)
  then show ?case
    by (subst siftdown.simps) (auto split: sum.splits bool.splits)
qed

lemma bubble_up_mset: "mset (snd (bubble_up h p)) = mset h"
proof (induction h p rule: bubble_up.induct)
  case (1 h pos)
  then show ?case
    by (subst bubble_up.simps) (auto split: sum.splits bool.splits)
qed

lemma siftup_mset: "mset (snd (siftup h p)) = mset h"
  using bubble_up_mset [of h p] siftdown_mset
  by (auto simp: siftup_def split: prod.splits result.splits)

lemma heappush_mset: "mset (snd (heappush h x)) = add_mset x (mset h)"
  by (simp add: heappush_def siftdown_mset)

lemma butlast_upd_mset:
  assumes "butlast h \<noteq> []"
  shows "add_mset (butlast h ! 0) (mset ((butlast h)[0 := last h])) = mset h"
proof -
  from assms obtain a xs where b: "butlast h = a # xs" by (cases "butlast h") auto
  from assms have "h \<noteq> []" by auto
  then have "h = butlast h @ [last h]" by simp
  then have "mset h = mset (butlast h @ [last h])" by simp
  then have "mset h = add_mset (last h) (mset (butlast h))" by simp
  with b show ?thesis by simp
qed

lemma heappop_mset:
  assumes "heappop h = (Returned x, h')"
  shows "mset h = add_mset x (mset h')"
proof (cases "butlast h = []")
  case True
  with assms have "h \<noteq> []" "x = last h" "h' = []"
    by (auto simp: heappop_def split: if_splits)
  moreover from this have "h = butlast h @ [last h]" by simp
  ultimately show ?thesis using True by (metis append_Nil mset.simps add_mset_commute)
next
  case False
  with assms have "x = butlast h ! 0" "h' = snd (siftup ((butlast h)[0 := last h]) 0)"
    by (auto simp: heappop_def split: if_splits prod.splits result.splits)
  then show ?thesis
    using butlast_upd_mset [OF False] by (simp add: siftup_mset)
qed

lemma heappop_length:
  assumes "h \<noteq> []"
  shows "length (snd (heappop h)) = length h - 1"
proof (cases "butlast h = []")
  case True
  then have "length (butlast h) = 0" by simp
  then have "length h \<le> 1" by simp
  with assms True show ?thesis by (simp add: heappop_def)
next
  case False
  have "size (mset (snd (siftup ((butlast h)[0 := last h]) 0))) = size (mset ((butlast h)[0 := last h]))"
    by (simp only: siftup_mset)
  then have "length (snd (siftup ((butlast h)[0 := last h]) 0)) = length h - 1"
    by simp
  with assms False show ?thesis
    by (auto simp: heappop_def split: prod.splits result.splits)
qed

lemma heappop_shorter:
  assumes "(Returned x, h') = heappop h" and "h \<noteq> []"
  shows "length h' < length h"
proof -
  from assms(1) have "h' = snd (heappop h)"
    by (metis snd_conv)
  with assms(2) show ?thesis
    by (simp add: heappop_length)
qed

section \<open>The class \<open>TaskManager\<close>\<close>

text \<open>
  A method returns three things: the value it returns or the exception it raises, the
  lines it prints, and the object (with its file) as the call leaves it. An exception
  leaves whatever the method had already changed.
\<close>

type_synonym outcome = "py_value result \<times> message list \<times> manager"

subsection \<open>\<open>save_tasks\<close> and \<open>load_tasks\<close>\<close>

text \<open>
  \<open>json.dump\<close> writes a tuple and a list alike as a JSON array, so the kind of an
  element does not reach the file. Failures of the operating system on \<open>open\<close> are not
  modelled.
\<close>

definition save_tasks :: "manager \<Rightarrow> manager" where
  "save_tasks m =
     m\<lparr>disk := Doc (Some (map (\<lambda>x. (prio x, task x)) (tasks m))) (Some (completed_tasks m))\<rparr>"

text \<open>
  Lines 15-20. \<open>data.get\<close> does not exist on a value that is not a dict
  (\<open>AttributeError\<close>); an absent key defaults to \<open>[]\<close>. The two attributes are assigned
  before \<open>heapify\<close> runs.
\<close>

definition load_tasks :: "manager \<Rightarrow> unit result \<times> manager" where
  "load_tasks m =
     (case disk m of
        Missing \<Rightarrow> (Returned (), m)
      | NotJSON \<Rightarrow> (Raised JSONDecodeError, m)
      | NonObject \<Rightarrow> (Raised AttributeError, m)
      | Doc ts cs \<Rightarrow>
          (case heapify (map (\<lambda>(p, t). Entry List p t) (case ts of None \<Rightarrow> [] | Some l \<Rightarrow> l)) of
             (r, h) \<Rightarrow>
               (r, m\<lparr>tasks := h,
                      completed_tasks := (case cs of None \<Rightarrow> {} | Some c \<Rightarrow> c)\<rparr>)))"

text \<open>\<open>TaskManager(filename)\<close>: an exception of \<open>load_tasks\<close> leaves no object.\<close>

definition init :: "store_file \<Rightarrow> py_error + manager" where
  "init f =
     (case load_tasks \<lparr>tasks = [], completed_tasks = {}, disk = f\<rparr> of
        (Raised e, m) \<Rightarrow> Inl e
      | (Returned u, m) \<Rightarrow> Inr m)"

subsection \<open>\<open>add_task\<close>\<close>

text \<open>\<open>str.isspace\<close> on the code points below 256, and \<open>str.strip()\<close>.\<close>

definition isspace :: "char \<Rightarrow> bool" where
  "isspace c =
     ((9 \<le> (of_char c :: nat) \<and> (of_char c :: nat) \<le> 13)
      \<or> (28 \<le> (of_char c :: nat) \<and> (of_char c :: nat) \<le> 32)
      \<or> (of_char c :: nat) = 133 \<or> (of_char c :: nat) = 160)"

definition strip :: "string \<Rightarrow> string" where
  "strip s = rev (dropWhile isspace (rev (dropWhile isspace s)))"

text \<open>
  \<open>isinstance(priority, int)\<close> holds for an \<open>int\<close> and, \<open>bool\<close> being a subclass of
  \<open>int\<close>, for \<open>True\<close> and \<open>False\<close>, which compare, sort and are \<open>==\<close> as \<open>1\<close> and
  \<open>0\<close>: the model stores that integer.
\<close>

fun as_int :: "py_value \<Rightarrow> int option" where
  "as_int (PyInt i) = Some i"
| "as_int (PyBool b) = Some (if b then 1 else 0)"
| "as_int v = None"

text \<open>
  Lines 27-42. \<open>dependencies or []\<close> is \<open>[]\<close> for \<open>None\<close> and for the empty list.
  \<open>heappush\<close> appends before it sifts, so the element stays in \<open>self.tasks\<close> when a
  comparison raises, and \<open>save_tasks\<close> is not reached.
\<close>

definition add_task ::
  "manager \<Rightarrow> string \<Rightarrow> py_value \<Rightarrow> string list option \<Rightarrow> string option \<Rightarrow> outcome" where
  "add_task m nm pr deps due =
     (if strip nm = [] then (Raised (ValueError EmptyName), [], m)
      else case as_int pr of
        None \<Rightarrow> (Raised (ValueError PriorityNotInt), [], m)
      | Some p \<Rightarrow>
          (case heappush (tasks m)
                  (Entry Tuple p
                     \<lparr>name = nm, priority = p,
                      dependencies = (case deps of None \<Rightarrow> [] | Some ds \<Rightarrow> ds),
                      due_date = due\<rparr>) of
             (Raised e, h) \<Rightarrow> (Raised e, [], m\<lparr>tasks := h\<rparr>)
           | (Returned u, h) \<Rightarrow> (Returned PyNone, [], save_tasks (m\<lparr>tasks := h\<rparr>))))"

text \<open>
  A caller that issues \<open>add_task\<close> calls one after the other; the first exception ends
  the run, as it would end a script.
\<close>

fun add_all ::
  "manager \<Rightarrow> (string \<times> py_value \<times> string list option \<times> string option) list
     \<Rightarrow> py_value result \<times> manager" where
  "add_all m [] = (Returned PyNone, m)"
| "add_all m ((nm, pr, deps, due) # calls) =
     (case add_task m nm pr deps due of
        (Raised e, out, m') \<Rightarrow> (Raised e, m')
      | (Returned v, out, m') \<Rightarrow> add_all m' calls)"

subsection \<open>\<open>show_tasks\<close>\<close>

text \<open>
  The key of line 46: \<open>(x[0], x[1]["due_date"] or "")\<close>. Python orders these tuples by
  the integer, then by the string, code point by code point; \<open>sorted\<close> is stable.
\<close>

definition sort_key_of :: "entry \<Rightarrow> int \<times> string" where
  "sort_key_of x = (prio x, case due_date (task x) of None \<Rightarrow> [] | Some d \<Rightarrow> d)"

definition task_line :: "entry \<Rightarrow> message" where
  "task_line x =
     TaskLine (name (task x)) (prio x) (due_date (task x)) (dependencies (task x))"

definition show_tasks :: "manager \<Rightarrow> outcome" where
  "show_tasks m = (Returned PyNone, map task_line (sort_key sort_key_of (tasks m)), m)"

subsection \<open>\<open>is_executable\<close> and \<open>next_task\<close>\<close>

definition is_executable :: "manager \<Rightarrow> task \<Rightarrow> bool" where
  "is_executable m t = list_all (\<lambda>dep. dep \<in> completed_tasks m) (dependencies t)"

definition next_task :: "manager \<Rightarrow> outcome" where
  "next_task m =
     (if tasks m \<noteq> [] then
        (if is_executable m (task (tasks m ! 0))
         then (Returned (PyTask (task (tasks m ! 0))), [], m)
         else (Returned PyNone, [Blocked], m))
      else (Returned PyNone, [NoPending], m))"

subsection \<open>\<open>complete_task\<close>\<close>

text \<open>
  The loop of lines 55-61 over \<open>self.tasks\<close>, \<open>self.completed_tasks\<close> and the locals
  \<open>remaining_tasks\<close> and \<open>task_found\<close>. It has no \<open>break\<close>: every element is popped.
  \<open>priority, task = heappop(...)\<close> unpacks a tuple or a list alike, and line 61 builds a
  tuple.
\<close>

function drain ::
  "entry list \<Rightarrow> string set \<Rightarrow> string \<Rightarrow> entry list \<Rightarrow> bool
     \<Rightarrow> unit result \<times> entry list \<times> string set \<times> entry list \<times> bool" where
  "drain h done task_name remaining found =
     (if h = [] then (Returned (), h, done, remaining, found)
      else case heappop h of
             (Raised e, h') \<Rightarrow> (Raised e, h', done, remaining, found)
           | (Returned x, h') \<Rightarrow>
               (if name (task x) = task_name
                then drain h' (insert task_name done) task_name remaining True
                else drain h' done task_name (remaining @ [Entry Tuple (prio x) (task x)]) found))"
  by pat_completeness auto
termination
  by (relation "measure (\<lambda>(h, done, task_name, remaining, found). length h)")
     (auto dest: heappop_shorter)

text \<open>Lines 66-67: \<open>for task in remaining_tasks: heapq.heappush(self.tasks, task)\<close>.\<close>

fun restore :: "entry list \<Rightarrow> entry list \<Rightarrow> unit result \<times> entry list" where
  "restore h [] = (Returned (), h)"
| "restore h (x # xs) =
     (case heappush h x of
        (Raised e, h') \<Rightarrow> (Raised e, h')
      | (Returned u, h') \<Rightarrow> restore h' xs)"

text \<open>
  Lines 50-69. The method has no \<open>return\<close> statement: it returns \<open>None\<close>. The message of
  line 64 is printed before the elements are pushed back.
\<close>

definition complete_task :: "manager \<Rightarrow> string \<Rightarrow> outcome" where
  "complete_task m task_name =
     (case drain (tasks m) (completed_tasks m) task_name [] False of
        (Raised e, h, done, remaining, found) \<Rightarrow>
          (Raised e, [], m\<lparr>tasks := h, completed_tasks := done\<rparr>)
      | (Returned u, h, done, remaining, found) \<Rightarrow>
          (case restore h remaining of
             (Raised e, h') \<Rightarrow>
               (Raised e, (if found then [] else [NotFound task_name]),
                m\<lparr>tasks := h', completed_tasks := done\<rparr>)
           | (Returned u', h') \<Rightarrow>
               (Returned PyNone, (if found then [] else [NotFound task_name]),
                save_tasks (m\<lparr>tasks := h', completed_tasks := done\<rparr>))))"

section \<open>What \<open>complete_task\<close> computes\<close>

text \<open>Line 61 rebuilds each kept element as a tuple.\<close>

definition retuple :: "entry \<Rightarrow> entry" where
  "retuple x = Entry Tuple (prio x) (task x)"

declare drain.simps [simp del]

lemma drain_returned:
  assumes "drain h done n rem found = (Returned u, h', done', rem', found')"
  shows "h' = []
     \<and> (found' \<longleftrightarrow> found \<or> (\<exists>x\<in>set h. name (task x) = n))
     \<and> done' = (if \<exists>x\<in>set h. name (task x) = n then insert n done else done)
     \<and> mset rem' = mset rem + image_mset retuple (filter_mset (\<lambda>x. name (task x) \<noteq> n) (mset h))"
  using assms
proof (induction h "done" n rem found rule: drain.induct)
  case (1 h "done" n rem found)
  show ?case
  proof (cases "h = []")
    case True
    with "1.prems" show ?thesis
      by (simp add: drain.simps)
  next
    case False
    with "1.prems" obtain x h1 where pop: "heappop h = (Returned x, h1)"
      by (subst (asm) drain.simps) (auto split: prod.splits result.splits)
    then have ms: "mset h = add_mset x (mset h1)"
      by (rule heappop_mset)
    then have st: "set h = insert x (set h1)"
      by (metis set_mset_add_mset_insert set_mset_mset)
    show ?thesis
    proof (cases "name (task x) = n")
      case True
      with False pop "1.prems"
      have "drain h1 (insert n done) n rem True = (Returned u, h', done', rem', found')"
        by (subst (asm) drain.simps) simp
      from "1.IH"(1) [OF False pop [symmetric] refl True this] True
      show ?thesis
        by (auto simp: ms st)
    next
      case neq: False
      with False pop "1.prems"
      have "drain h1 done n (rem @ [Entry Tuple (prio x) (task x)]) found
            = (Returned u, h', done', rem', found')"
        by (subst (asm) drain.simps) simp
      from "1.IH"(2) [OF False pop [symmetric] refl neq this] neq
      show ?thesis
        by (auto simp: ms st retuple_def)
    qed
  qed
qed

lemma restore_mset: "mset (snd (restore h xs)) \<subseteq># mset h + mset xs"
proof (induction xs arbitrary: h)
  case Nil
  then show ?case by simp
next
  case (Cons x xs)
  have "mset (snd (heappush h x)) = add_mset x (mset h)"
    by (rule heappush_mset)
  with Cons [of "snd (heappush h x)"] show ?case
    by (auto split: prod.splits result.splits)
qed

lemma restore_returned:
  "restore h xs = (Returned u, h') \<Longrightarrow> mset h' = mset h + mset xs"
proof (induction xs arbitrary: h)
  case Nil
  then show ?case by simp
next
  case (Cons x xs)
  have "mset (snd (heappush h x)) = add_mset x (mset h)"
    by (rule heappush_mset)
  with Cons show ?case
    by (auto split: prod.splits result.splits)
qed


text \<open>The pending tasks as a multiset of (priority, task) pairs, whatever their order in the
  heap and whether an element is a tuple or a list.\<close>

definition pending :: "manager \<Rightarrow> (int \<times> task) multiset" where
  "pending m = mset (map (\<lambda>x. (prio x, task x)) (tasks m))"

text \<open>
  No comparison between two elements of the list raises: they are all tuples or all lists,
  and two elements of equal priority hold equal tasks.
\<close>

definition orderable :: "entry list \<Rightarrow> bool" where
  "orderable h \<longleftrightarrow>
     (\<forall>x\<in>set h. \<forall>y\<in>set h. kind x = kind y \<and> (prio x = prio y \<longrightarrow> task x = task y))"


lemma complete_task_returned:
  assumes "complete_task m n = (Returned v, out, m')"
  shows "v = PyNone
     \<and> out = (if \<exists>x\<in>set (tasks m). name (task x) = n then [] else [NotFound n])
     \<and> completed_tasks m' =
         (if \<exists>x\<in>set (tasks m). name (task x) = n then insert n (completed_tasks m)
          else completed_tasks m)
     \<and> mset (tasks m') = image_mset retuple (filter_mset (\<lambda>x. name (task x) \<noteq> n) (mset (tasks m)))
     \<and> disk m' = disk (save_tasks m')"
proof -
  obtain r h d rem found
    where dr: "drain (tasks m) (completed_tasks m) n [] False = (r, h, d, rem, found)"
    using prod_cases5 by blast
  obtain r2 h2 where rs: "restore h rem = (r2, h2)"
    by (cases "restore h rem")
  from assms dr have r: "r = Returned ()"
    by (cases r) (simp_all add: complete_task_def)
  from assms dr r rs have r2: "r2 = Returned ()"
    by (cases r2) (simp_all add: complete_task_def)
  from assms dr r rs r2
  have res: "v = PyNone" "out = (if found then [] else [NotFound n])"
    "m' = save_tasks (m\<lparr>tasks := h2, completed_tasks := d\<rparr>)"
    by (simp_all add: complete_task_def)
  from drain_returned [OF dr [unfolded r]]
  have d: "h = []" "found \<longleftrightarrow> (\<exists>x\<in>set (tasks m). name (task x) = n)"
    "d = (if \<exists>x\<in>set (tasks m). name (task x) = n then insert n (completed_tasks m)
          else completed_tasks m)"
    "mset rem = image_mset retuple (filter_mset (\<lambda>x. name (task x) \<noteq> n) (mset (tasks m)))"
    by simp_all
  from restore_returned [OF rs [unfolded r2]] d(1) have h2: "mset h2 = mset rem"
    by simp
  have "tasks m' = h2" "completed_tasks m' = d" "disk m' = disk (save_tasks m')"
    by (simp_all add: res(3) save_tasks_def)
  with res(1,2) d(2,3,4) h2 show ?thesis
    by simp
qed


lemma orderable_entry_lt:
  assumes "orderable h" "x \<in> set h" "y \<in> set h"
  shows "\<exists>b. entry_lt x y = Inr b"
proof -
  from assms have "kind x = kind y" "prio x = prio y \<longrightarrow> task x = task y"
    unfolding orderable_def by blast+
  then show ?thesis
    unfolding entry_lt_def by (cases "prio x = prio y") auto
qed

lemma orderable_subset: "orderable h \<Longrightarrow> set h' \<subseteq> set h \<Longrightarrow> orderable h'"
  unfolding orderable_def by blast


lemma set_swap: "i < length h \<Longrightarrow> j < length h \<Longrightarrow> set (swap h i j) = set h"
proof -
  assume "i < length h" "j < length h"
  then have "mset (swap h i j) = mset h"
    by (rule mset_swap_entries)
  then show ?thesis
    by (rule mset_eq_setD)
qed


lemma orderable_swap:
  "orderable h \<Longrightarrow> i < length h \<Longrightarrow> j < length h \<Longrightarrow> orderable (swap h i j)"
proof -
  assume h: "orderable h" and "i < length h" "j < length h"
  then have "set (swap h i j) \<subseteq> set h"
    by (simp only: set_swap)
  with h show ?thesis
    by (rule orderable_subset)
qed

lemma siftdown_ok:
  "orderable h \<Longrightarrow> pos < length h \<Longrightarrow> fst (siftdown h s pos) = Returned ()"
proof (induction h s pos rule: siftdown.induct)
  case (1 h startpos pos)
  show ?case
  proof (cases "startpos < pos")
    case False
    with "1.prems" show ?thesis
      by (subst siftdown.simps) simp
  next
    case True
    let ?par = "(pos - 1) div 2"
    from "1.prems" have par: "?par < length h"
      by simp
    with "1.prems" obtain b where b: "entry_lt (h ! pos) (h ! ?par) = Inr b"
      using orderable_entry_lt [of h "h ! pos" "h ! ?par"] by auto
    show ?thesis
    proof (cases b)
      case False
      with b True "1.prems" show ?thesis
        by (subst siftdown.simps) simp
    next
      case bt: True
      have "fst (siftdown (swap h pos ?par) startpos ?par) = Returned ()"
      proof (rule "1.IH")
        show "\<not> length h \<le> pos" using "1.prems" by simp
        show "startpos < pos" by (rule True)
        show "entry_lt (h ! pos) (h ! ?par) = Inr b" by (rule b)
        show "b = True" using bt by simp
        show "orderable (swap h pos ?par)" using "1.prems" par by (simp add: orderable_swap)
        show "?par < length (swap h pos ?par)" using par by simp
      qed
      with b bt True "1.prems" show ?thesis
        by (subst siftdown.simps) simp
    qed
  qed
qed

lemma bubble_up_ok:
  "orderable h \<Longrightarrow> pos < length h \<Longrightarrow>
     \<exists>leaf<length h. fst (bubble_up h pos) = Returned leaf"
proof (induction h pos rule: bubble_up.induct)
  case (1 h pos)
  show ?case
  proof (cases "2 * pos + 1 < length h")
    case False
    with "1.prems" show ?thesis
      by (subst bubble_up.simps) simp
  next
    case left: True
    show ?thesis
    proof (cases "2 * pos + 2 < length h")
      case False
      have "\<exists>leaf<length (swap h pos (2 * pos + 1)).
              fst (bubble_up (swap h pos (2 * pos + 1)) (2 * pos + 1)) = Returned leaf"
      proof (rule "1.IH"(3))
        show "2 * pos + 1 < length h" by (rule left)
        show "\<not> 2 * pos + 2 < length h" by (rule False)
        show "orderable (swap h pos (2 * pos + 1))"
          using "1.prems" left by (simp add: orderable_swap)
        show "2 * pos + 1 < length (swap h pos (2 * pos + 1))"
          using left by simp
      qed
      with left False show ?thesis
        by (subst bubble_up.simps) simp
    next
      case right: True
      from "1.prems" left right
      obtain b where b: "entry_lt (h ! (2 * pos + 1)) (h ! (2 * pos + 2)) = Inr b"
        using orderable_entry_lt [of h "h ! (2 * pos + 1)" "h ! (2 * pos + 2)"]
        by (meson nth_mem)
      show ?thesis
      proof (cases b)
        case True
        have "\<exists>leaf<length (swap h pos (2 * pos + 1)).
                fst (bubble_up (swap h pos (2 * pos + 1)) (2 * pos + 1)) = Returned leaf"
        proof (rule "1.IH"(1))
          show "2 * pos + 1 < length h" by (rule left)
          show "2 * pos + 2 < length h" by (rule right)
          show "entry_lt (h ! (2 * pos + 1)) (h ! (2 * pos + 2)) = Inr b" by (rule b)
          show "b = True" using True by simp
          show "orderable (swap h pos (2 * pos + 1))"
            using "1.prems" left by (simp add: orderable_swap)
          show "2 * pos + 1 < length (swap h pos (2 * pos + 1))"
            using left by simp
        qed
        with left right b True show ?thesis
          by (subst bubble_up.simps) simp
      next
        case False
        have "\<exists>leaf<length (swap h pos (2 * pos + 2)).
                fst (bubble_up (swap h pos (2 * pos + 2)) (2 * pos + 2)) = Returned leaf"
        proof (rule "1.IH"(2))
          show "2 * pos + 1 < length h" by (rule left)
          show "2 * pos + 2 < length h" by (rule right)
          show "entry_lt (h ! (2 * pos + 1)) (h ! (2 * pos + 2)) = Inr b" by (rule b)
          show "b = False" using False by simp
          show "orderable (swap h pos (2 * pos + 2))"
            using "1.prems" right by (simp add: orderable_swap)
          show "2 * pos + 2 < length (swap h pos (2 * pos + 2))"
            using right by simp
        qed
        with left right b False show ?thesis
          by (subst bubble_up.simps) simp
      qed
    qed
  qed
qed

lemma siftdown_set: "set (snd (siftdown h s p)) = set h"
  by (rule mset_eq_setD) (rule siftdown_mset)

lemma bubble_up_set: "set (snd (bubble_up h p)) = set h"
  by (rule mset_eq_setD) (rule bubble_up_mset)

lemma bubble_up_length: "length (snd (bubble_up h p)) = length h"
  by (rule mset_eq_length) (rule bubble_up_mset)

lemma siftup_ok:
  assumes "orderable h" "pos < length h"
  shows "fst (siftup h pos) = Returned ()"
proof -
  from bubble_up_ok [OF assms] obtain leaf
    where leaf: "leaf < length h" "fst (bubble_up h pos) = Returned leaf"
    by blast
  obtain h' where h': "bubble_up h pos = (Returned leaf, h')"
    using leaf(2) by (cases "bubble_up h pos") simp
  then have "set h' = set h" "length h' = length h"
    using bubble_up_set [of h pos] bubble_up_length [of h pos] by simp_all
  with assms(1) leaf(1) have "orderable h'" "leaf < length h'"
    by (simp_all add: orderable_subset)
  then have "fst (siftdown h' pos leaf) = Returned ()"
    by (rule siftdown_ok)
  with assms(2) h' show ?thesis
    by (simp add: siftup_def)
qed

lemma heappush_ok: "orderable (h @ [x]) \<Longrightarrow> fst (heappush h x) = Returned ()"
  by (simp add: heappush_def siftdown_ok)


lemma siftup_set: "set (snd (siftup h p)) = set h"
  by (rule mset_eq_setD) (rule siftup_mset)

lemma heappush_set: "set (snd (heappush h x)) = insert x (set h)"
  using heappush_mset [of h x] by (metis set_mset_add_mset_insert set_mset_mset)

lemma heappop_ok:
  assumes "orderable h" "h \<noteq> []"
  shows "\<exists>x h'. heappop h = (Returned x, h')"
proof (cases "butlast h = []")
  case True
  with assms(2) show ?thesis
    by (simp add: heappop_def)
next
  case False
  let ?h = "(butlast h)[0 := last h]"
  have "set ?h \<subseteq> insert (last h) (set (butlast h))"
    by (rule set_update_subset_insert)
  also have "\<dots> \<subseteq> set h"
    using assms(2) by (auto dest: in_set_butlastD)
  finally have "orderable ?h"
    using assms(1) by (rule orderable_subset [rotated])
  moreover from False have "0 < length ?h"
    by (cases "butlast h") simp_all
  ultimately have "fst (siftup ?h 0) = Returned ()"
    by (rule siftup_ok)
  with assms(2) False show ?thesis
    by (cases "siftup ?h 0") (simp add: heappop_def)
qed

lemma heappop_subset:
  assumes "heappop h = (Returned x, h')"
  shows "set h' \<subseteq> set h"
proof -
  from heappop_mset [OF assms] have "set h = insert x (set h')"
    by (metis set_mset_add_mset_insert set_mset_mset)
  then show ?thesis
    by blast
qed

lemma drain_ok:
  "orderable h \<Longrightarrow> fst (drain h done n rem found) = Returned ()"
proof (induction h "done" n rem found rule: drain.induct)
  case (1 h "done" n rem found)
  show ?case
  proof (cases "h = []")
    case True
    then show ?thesis
      by (simp add: drain.simps)
  next
    case False
    with "1.prems" obtain x h1 where pop: "heappop h = (Returned x, h1)"
      using heappop_ok by blast
    then have h1: "orderable h1"
      using "1.prems" heappop_subset orderable_subset by blast
    show ?thesis
    proof (cases "name (task x) = n")
      case True
      have "fst (drain h1 (insert n done) n rem True) = Returned ()"
        by (rule "1.IH"(1) [OF False pop [symmetric] refl True h1])
      with False pop True show ?thesis
        by (subst drain.simps) simp
    next
      case neq: False
      have "fst (drain h1 done n (rem @ [Entry Tuple (prio x) (task x)]) found) = Returned ()"
        by (rule "1.IH"(2) [OF False pop [symmetric] refl neq h1])
      with False pop neq show ?thesis
        by (subst drain.simps) simp
    qed
  qed
qed

lemma restore_ok:
  "orderable (h @ xs) \<Longrightarrow> fst (restore h xs) = Returned ()"
proof (induction xs arbitrary: h)
  case Nil
  then show ?case by simp
next
  case (Cons x xs)
  from Cons.prems have "orderable (h @ [x])"
    by (rule orderable_subset) auto
  then have ok: "fst (heappush h x) = Returned ()"
    by (rule heappush_ok)
  then obtain h1 where h1: "heappush h x = (Returned (), h1)"
    by (cases "heappush h x") simp
  then have "set h1 = insert x (set h)"
    using heappush_set [of h x] by simp
  with Cons.prems have "orderable (h1 @ xs)"
    by (auto intro: orderable_subset)
  then have "fst (restore h1 xs) = Returned ()"
    by (rule Cons.IH)
  with h1 show ?case
    by simp
qed


lemma orderable_retuple:
  assumes "orderable h" "set r \<subseteq> retuple ` set h"
  shows "orderable r"
  unfolding orderable_def
proof (intro ballI)
  fix x y
  assume "x \<in> set r" "y \<in> set r"
  with assms(2) obtain x' y'
    where x': "x' \<in> set h" "x = retuple x'" and y': "y' \<in> set h" "y = retuple y'"
    by blast
  from assms(1) x'(1) y'(1) have "prio x' = prio y' \<longrightarrow> task x' = task y'"
    unfolding orderable_def by blast
  then show "kind x = kind y \<and> (prio x = prio y \<longrightarrow> task x = task y)"
    unfolding x'(2) y'(2) retuple_def by simp
qed

lemma complete_task_ok:
  assumes "orderable (tasks m)"
  shows "\<exists>out m'. complete_task m n = (Returned PyNone, out, m')"
proof -
  obtain r h d rem found
    where dr: "drain (tasks m) (completed_tasks m) n [] False = (r, h, d, rem, found)"
    using prod_cases5 by blast
  have "fst (drain (tasks m) (completed_tasks m) n [] False) = Returned ()"
    using assms by (rule drain_ok)
  with dr have r: "r = Returned ()"
    by simp
  from drain_returned [OF dr [unfolded r]]
  have h: "h = []"
    and rem: "mset rem = image_mset retuple (filter_mset (\<lambda>x. name (task x) \<noteq> n) (mset (tasks m)))"
    by simp_all
  have "set rem = set_mset (mset rem)"
    by simp
  also have "\<dots> = retuple ` {x \<in> set (tasks m). name (task x) \<noteq> n}"
    unfolding rem by simp
  finally have "set rem \<subseteq> retuple ` set (tasks m)"
    by blast
  with assms have "orderable rem"
    by (rule orderable_retuple)
  with h have "orderable (h @ rem)"
    by simp
  then have "fst (restore h rem) = Returned ()"
    by (rule restore_ok)
  then obtain h2 where rs: "restore h rem = (Returned (), h2)"
    by (cases "restore h rem") simp
  show ?thesis
    by (simp add: complete_task_def dr r rs)
qed

section \<open>Validation in \<open>add_task\<close>\<close>

lemma strip_blank: "strip s = [] \<longleftrightarrow> (\<forall>c\<in>set s. isspace c)"
proof
  assume "strip s = []"
  then have "dropWhile isspace (rev (dropWhile isspace s)) = []"
    by (simp add: strip_def)
  then have "\<forall>c\<in>set (dropWhile isspace s). isspace c"
    by simp
  moreover have "\<forall>c\<in>set (takeWhile isspace s). isspace c"
    by (auto dest: set_takeWhileD)
  moreover have "set s = set (takeWhile isspace s) \<union> set (dropWhile isspace s)"
    by (metis set_append takeWhile_dropWhile_id)
  ultimately show "\<forall>c\<in>set s. isspace c"
    by blast
next
  assume "\<forall>c\<in>set s. isspace c"
  then show "strip s = []"
    unfolding strip_def by (auto dest: set_dropWhileD)
qed

text \<open>
  C8. When the name is empty or consists of whitespace only, or the priority is not an
  instance of \<open>int\<close> (a float such as \<open>1.5\<close>, a string, \<open>None\<close>), \<open>add_task\<close> raises
  \<open>ValueError\<close>, prints nothing, and leaves \<open>self.tasks\<close>, \<open>self.completed_tasks\<close> and
  the file as they were: nothing is inserted and nothing is saved.
\<close>

theorem add_task_rejects_invalid:
  assumes "(\<forall>c\<in>set nm. isspace c) \<or> as_int pr = None"
  shows "\<exists>msg. add_task m nm pr deps due = (Raised (ValueError msg), [], m)"
proof (cases "strip nm = []")
  case True
  then show ?thesis
    by (simp add: add_task_def)
next
  case False
  then have "\<not> (\<forall>c\<in>set nm. isspace c)"
    by (simp only: strip_blank not_False_eq_True)
  with assms have "as_int pr = None"
    by blast
  with False show ?thesis
    by (simp add: add_task_def)
qed

theorem add_task_rejects_invalid_witness:
  "(\<exists>msg. add_task \<lparr>tasks = [], completed_tasks = {}, disk = Missing\<rparr> [] (PyInt 1) None None
            = (Raised (ValueError msg), [], \<lparr>tasks = [], completed_tasks = {}, disk = Missing\<rparr>))
   \<and> (\<exists>msg. add_task \<lparr>tasks = [], completed_tasks = {}, disk = Missing\<rparr> ''   '' (PyInt 1) None None
            = (Raised (ValueError msg), [], \<lparr>tasks = [], completed_tasks = {}, disk = Missing\<rparr>))
   \<and> (\<exists>msg. add_task \<lparr>tasks = [], completed_tasks = {}, disk = Missing\<rparr> ''x'' (PyFloat 3 (- 1)) None None
            = (Raised (ValueError msg), [], \<lparr>tasks = [], completed_tasks = {}, disk = Missing\<rparr>))"
proof -
  have empty: "(\<forall>c\<in>set []. isspace c) \<or> as_int (PyInt 1) = None"
    by simp
  have blank: "(\<forall>c\<in>set ''   ''. isspace c) \<or> as_int (PyInt 1) = None"
    by (simp add: isspace_def)
  have float: "(\<forall>c\<in>set ''x''. isspace c) \<or> as_int (PyFloat 3 (- 1)) = None"
    by simp
  show ?thesis
    using add_task_rejects_invalid [OF empty] add_task_rejects_invalid [OF blank]
      add_task_rejects_invalid [OF float]
    by blast
qed

section \<open>The result of \<open>complete_task\<close>\<close>

text \<open>
  C1 (amended). \<open>complete_task\<close> has no \<open>return\<close> statement: whenever it finishes, it
  returns \<open>None\<close>, never a boolean. Whether a pending task had the name is told by the
  output alone: nothing is printed when some pending task has exactly that name, and the
  line "La tarea ... no se encontro" is printed when none has, also when the name is in
  \<open>completed_tasks\<close>. It does finish whenever no two pending elements clash in a comparison.
\<close>

theorem complete_task_returns_none:
  "(orderable (tasks m) \<longrightarrow> (\<exists>out m'. complete_task m n = (Returned PyNone, out, m')))
   \<and> (\<forall>v out m'. complete_task m n = (Returned v, out, m') \<longrightarrow>
         v = PyNone
         \<and> out = (if \<exists>x\<in>set (tasks m). name (task x) = n then [] else [NotFound n]))"
  using complete_task_ok [of m n] complete_task_returned [of m n] by blast

theorem complete_task_returns_none_witness:
  "orderable (tasks \<lparr>tasks = [Entry Tuple 1 \<lparr>name = ''a'', priority = 1, dependencies = [], due_date = None\<rparr>],
                     completed_tasks = {''c''}, disk = Missing\<rparr>)
   \<and> (\<exists>m'. complete_task
          \<lparr>tasks = [Entry Tuple 1 \<lparr>name = ''a'', priority = 1, dependencies = [], due_date = None\<rparr>],
           completed_tasks = {''c''}, disk = Missing\<rparr> ''c''
        = (Returned PyNone, [NotFound ''c''], m'))"
proof -
  let ?m = "\<lparr>tasks = [Entry Tuple 1 \<lparr>name = ''a'', priority = 1, dependencies = [], due_date = None\<rparr>],
             completed_tasks = {''c''}, disk = Missing\<rparr>"
  have o: "orderable (tasks ?m)"
    by (simp add: orderable_def)
  with complete_task_returns_none [of ?m "''c''"]
  obtain out m' where r: "complete_task ?m ''c'' = (Returned PyNone, out, m')"
    by blast
  with complete_task_returns_none [of ?m "''c''"]
  have "out = (if \<exists>x\<in>set (tasks ?m). name (task x) = ''c'' then [] else [NotFound ''c''])"
    by blast
  then have "out = [NotFound ''c'']"
    by simp
  with o r show ?thesis
    by blast
qed

text \<open>
  C1 as stated fails: with a task named \<open>a\<close> pending, \<open>complete_task("a")\<close> returns
  \<open>None\<close>, not \<open>True\<close>.
\<close>

theorem complete_task_returns_bool_counterexample:
  "fst (complete_task
         \<lparr>tasks = [Entry Tuple 1 \<lparr>name = ''a'', priority = 1, dependencies = [], due_date = None\<rparr>],
          completed_tasks = {}, disk = Missing\<rparr> ''a'') = Returned PyNone
   \<and> fst (complete_task
         \<lparr>tasks = [Entry Tuple 1 \<lparr>name = ''a'', priority = 1, dependencies = [], due_date = None\<rparr>],
          completed_tasks = {}, disk = Missing\<rparr> ''a'') \<noteq> Returned (PyBool True)"
  by code_simp

section \<open>Tasks sharing a name\<close>

lemma pending_retuple:
  assumes "mset h' = image_mset retuple (filter_mset (\<lambda>x. name (task x) \<noteq> n) (mset h))"
  shows "mset (map (\<lambda>x. (prio x, task x)) h')
         = filter_mset (\<lambda>(p, t). name t \<noteq> n) (mset (map (\<lambda>x. (prio x, task x)) h))"
proof -
  have "mset (map (\<lambda>x. (prio x, task x)) h') = image_mset (\<lambda>x. (prio x, task x)) (mset h')"
    by simp
  also have "\<dots> = image_mset (\<lambda>x. (prio x, task x)) (filter_mset (\<lambda>x. name (task x) \<noteq> n) (mset h))"
    unfolding assms by (simp add: image_mset.compositionality comp_def retuple_def)
  also have "\<dots> = filter_mset (\<lambda>(p, t). name t \<noteq> n) (image_mset (\<lambda>x. (prio x, task x)) (mset h))"
    by (simp add: filter_mset_image_mset comp_def)
  finally show ?thesis
    by simp
qed

text \<open>
  C2 (amended). The loop of \<open>complete_task\<close> has no \<open>break\<close>: whenever the call finishes,
  every pending task whose name is the one passed is removed, not only the first one popped;
  no task of that name remains pending, and the pending tasks of any other name are exactly
  those there were before.
\<close>

theorem complete_task_removes_every_match:
  assumes "complete_task m n = (Returned v, out, m')"
  shows "pending m' = filter_mset (\<lambda>(p, t). name t \<noteq> n) (pending m)
         \<and> (\<forall>x\<in>set (tasks m'). name (task x) \<noteq> n)"
proof -
  from complete_task_returned [OF assms]
  have ms: "mset (tasks m') = image_mset retuple (filter_mset (\<lambda>x. name (task x) \<noteq> n) (mset (tasks m)))"
    by blast
  then have "pending m' = filter_mset (\<lambda>(p, t). name t \<noteq> n) (pending m)"
    unfolding pending_def by (rule pending_retuple)
  moreover have "\<forall>x\<in>set (tasks m'). name (task x) \<noteq> n"
  proof
    fix x
    assume "x \<in> set (tasks m')"
    then have "x \<in># mset (tasks m')"
      by simp
    then show "name (task x) \<noteq> n"
      unfolding ms by (auto simp: retuple_def)
  qed
  ultimately show ?thesis
    by blast
qed

theorem complete_task_removes_every_match_witness:
  "complete_task
     \<lparr>tasks = [Entry Tuple 1 \<lparr>name = ''x'', priority = 1, dependencies = [], due_date = None\<rparr>,
               Entry Tuple 2 \<lparr>name = ''y'', priority = 2, dependencies = [], due_date = None\<rparr>,
               Entry Tuple 3 \<lparr>name = ''x'', priority = 3, dependencies = [], due_date = None\<rparr>],
      completed_tasks = {}, disk = Missing\<rparr> ''x''
   = (Returned PyNone, [],
      \<lparr>tasks = [Entry Tuple 2 \<lparr>name = ''y'', priority = 2, dependencies = [], due_date = None\<rparr>],
       completed_tasks = {''x''},
       disk = Doc (Some [(2, \<lparr>name = ''y'', priority = 2, dependencies = [], due_date = None\<rparr>)])
                  (Some {''x''})\<rparr>)
   \<and> filter (\<lambda>x. name (task x) = ''x'')
        [Entry Tuple 2 \<lparr>name = ''y'', priority = 2, dependencies = [], due_date = None\<rparr>] = []"
proof -
  let ?m = "\<lparr>tasks = [Entry Tuple 1 \<lparr>name = ''x'', priority = 1, dependencies = [], due_date = None\<rparr>,
               Entry Tuple 2 \<lparr>name = ''y'', priority = 2, dependencies = [], due_date = None\<rparr>,
               Entry Tuple 3 \<lparr>name = ''x'', priority = 3, dependencies = [], due_date = None\<rparr>],
      completed_tasks = {}, disk = Missing\<rparr>"
  let ?m' = "\<lparr>tasks = [Entry Tuple 2 \<lparr>name = ''y'', priority = 2, dependencies = [], due_date = None\<rparr>],
       completed_tasks = {''x''},
       disk = Doc (Some [(2, \<lparr>name = ''y'', priority = 2, dependencies = [], due_date = None\<rparr>)])
                  (Some {''x''})\<rparr>"
  have run: "complete_task ?m ''x'' = (Returned PyNone, [], ?m')"
    by code_simp
  from complete_task_removes_every_match [OF run]
  have "\<forall>x\<in>set (tasks ?m'). name (task x) \<noteq> ''x''"
    by (rule conjunct2)
  then have "filter (\<lambda>x. name (task x) = ''x'') (tasks ?m') = []"
    by (simp only: filter_False)
  with run show ?thesis
    by simp
qed

text \<open>
  C2 as stated fails: with two pending tasks named \<open>x\<close> (priorities 1 and 2),
  \<open>complete_task("x")\<close> leaves no pending task at all; the second \<open>x\<close> does not remain.
\<close>

theorem complete_task_first_match_only_counterexample:
  "tasks (snd (snd (complete_task
     \<lparr>tasks = [Entry Tuple 1 \<lparr>name = ''x'', priority = 1, dependencies = [], due_date = None\<rparr>,
               Entry Tuple 2 \<lparr>name = ''x'', priority = 2, dependencies = [], due_date = None\<rparr>],
      completed_tasks = {}, disk = Missing\<rparr> ''x''))) = []"
  by code_simp

section \<open>Tasks of equal priority\<close>

lemma add_task_first:
  assumes "strip nm \<noteq> []" "tasks m = []"
  shows "add_task m nm (PyInt p) deps due
         = (Returned PyNone, [],
            save_tasks (m\<lparr>tasks := [Entry Tuple p \<lparr>name = nm, priority = p,
               dependencies = (case deps of None \<Rightarrow> [] | Some ds \<Rightarrow> ds), due_date = due\<rparr>]\<rparr>))"
  using assms by (simp add: add_task_def heappush_def siftdown.simps)

lemma add_task_tie:
  assumes "strip nm \<noteq> []" "tasks m = [x]" "kind x = Tuple" "prio x = p" "name (task x) \<noteq> nm"
  shows "add_task m nm (PyInt p) deps due
         = (Raised TypeError, [],
            m\<lparr>tasks := [x, Entry Tuple p \<lparr>name = nm, priority = p,
               dependencies = (case deps of None \<Rightarrow> [] | Some ds \<Rightarrow> ds), due_date = due\<rparr>]\<rparr>)"
proof -
  let ?e = "Entry Tuple p \<lparr>name = nm, priority = p,
               dependencies = (case deps of None \<Rightarrow> [] | Some ds \<Rightarrow> ds), due_date = due\<rparr>"
  from assms(5) have "name (task ?e) \<noteq> name (task x)"
    by simp
  then have "task ?e \<noteq> task x"
    by metis
  with assms(3,4) have "entry_lt ?e x = Inl TypeError"
    by (simp add: entry_lt_def)
  then have "siftdown [x, ?e] 0 (Suc 0) = (Raised TypeError, [x, ?e])"
    by (subst siftdown.simps) simp
  with assms(1,2) show ?thesis
    by (simp add: add_task_def heappush_def)
qed

text \<open>
  C4 (amended). Two \<open>add_task\<close> calls on a store with no pending task, with valid and
  distinct names and the same integer priority: the second raises \<open>TypeError\<close>, because
  the sift compares the two dicts; both elements are then in \<open>self.tasks\<close>, the second
  unsaved. States with two pending tasks of equal priority are nevertheless reachable
  through successful \<open>add_task\<close> calls: \<open>a\<close> at 1, then \<open>b\<close> and \<open>c\<close> at 2 become
  siblings in the heap and are never compared. \<open>complete_task\<close> raises the same error
  while it drains such a heap (popping \<open>a\<close> compares \<open>b\<close> with \<open>c\<close>, and \<open>a\<close> is
  lost), and while it pushes the elements back (two elements at priority 1: the not-found
  line, printed once the drain is over, is on the output).
\<close>

theorem equal_priorities_clash:
  "(strip n1 \<noteq> [] \<and> strip n2 \<noteq> [] \<and> n1 \<noteq> n2 \<and> tasks m = [] \<longrightarrow>
      fst (add_all m [(n1, PyInt p, d1, u1), (n2, PyInt p, d2, u2)]) = Raised TypeError
      \<and> map prio (tasks (snd (add_all m [(n1, PyInt p, d1, u1), (n2, PyInt p, d2, u2)]))) = [p, p])
   \<and> fst (add_all \<lparr>tasks = [], completed_tasks = {}, disk = Missing\<rparr>
            [(''a'', PyInt 1, None, None), (''b'', PyInt 2, None, None), (''c'', PyInt 2, None, None)])
       = Returned PyNone
   \<and> map prio (tasks (snd (add_all \<lparr>tasks = [], completed_tasks = {}, disk = Missing\<rparr>
            [(''a'', PyInt 1, None, None), (''b'', PyInt 2, None, None), (''c'', PyInt 2, None, None)])))
       = [1, 2, 2]
   \<and> complete_task (snd (add_all \<lparr>tasks = [], completed_tasks = {}, disk = Missing\<rparr>
            [(''a'', PyInt 1, None, None), (''b'', PyInt 2, None, None), (''c'', PyInt 2, None, None)])) ''a''
       = (Raised TypeError, [],
          \<lparr>tasks = [Entry Tuple 2 \<lparr>name = ''b'', priority = 2, dependencies = [], due_date = None\<rparr>,
                    Entry Tuple 2 \<lparr>name = ''c'', priority = 2, dependencies = [], due_date = None\<rparr>],
           completed_tasks = {},
           disk = Doc (Some [(1, \<lparr>name = ''a'', priority = 1, dependencies = [], due_date = None\<rparr>),
                             (2, \<lparr>name = ''b'', priority = 2, dependencies = [], due_date = None\<rparr>),
                             (2, \<lparr>name = ''c'', priority = 2, dependencies = [], due_date = None\<rparr>)])
                      (Some {})\<rparr>)
   \<and> fst (complete_task (snd (add_all \<lparr>tasks = [], completed_tasks = {}, disk = Missing\<rparr>
            [(''a'', PyInt 1, None, None), (''b'', PyInt 1, None, None)])) ''zzz'')
       = Raised TypeError
   \<and> fst (snd (complete_task (snd (add_all \<lparr>tasks = [], completed_tasks = {}, disk = Missing\<rparr>
            [(''a'', PyInt 1, None, None), (''b'', PyInt 1, None, None)])) ''zzz''))
       = [NotFound ''zzz'']"
proof -
  have general: "fst (add_all m [(n1, PyInt p, d1, u1), (n2, PyInt p, d2, u2)]) = Raised TypeError
      \<and> map prio (tasks (snd (add_all m [(n1, PyInt p, d1, u1), (n2, PyInt p, d2, u2)]))) = [p, p]"
    if "strip n1 \<noteq> []" "strip n2 \<noteq> []" "n1 \<noteq> n2" "tasks m = []"
  proof -
    let ?x = "Entry Tuple p \<lparr>name = n1, priority = p,
               dependencies = (case d1 of None \<Rightarrow> [] | Some ds \<Rightarrow> ds), due_date = u1\<rparr>"
    let ?m1 = "save_tasks (m\<lparr>tasks := [?x]\<rparr>)"
    have one: "add_task m n1 (PyInt p) d1 u1 = (Returned PyNone, [], ?m1)"
      using that(1,4) by (rule add_task_first)
    have "tasks ?m1 = [?x]"
      by (simp add: save_tasks_def)
    then have "add_task ?m1 n2 (PyInt p) d2 u2
         = (Raised TypeError, [],
            ?m1\<lparr>tasks := [?x, Entry Tuple p \<lparr>name = n2, priority = p,
               dependencies = (case d2 of None \<Rightarrow> [] | Some ds \<Rightarrow> ds), due_date = u2\<rparr>]\<rparr>)"
      using that(2,3) by (intro add_task_tie) simp_all
    with one show ?thesis
      by simp
  qed
  have three: "fst (add_all \<lparr>tasks = [], completed_tasks = {}, disk = Missing\<rparr>
            [(''a'', PyInt 1, None, None), (''b'', PyInt 2, None, None), (''c'', PyInt 2, None, None)])
       = Returned PyNone"
    by code_simp
  have ties: "map prio (tasks (snd (add_all \<lparr>tasks = [], completed_tasks = {}, disk = Missing\<rparr>
            [(''a'', PyInt 1, None, None), (''b'', PyInt 2, None, None), (''c'', PyInt 2, None, None)])))
       = [1, 2, 2]"
    by code_simp
  have drain_raises: "complete_task (snd (add_all \<lparr>tasks = [], completed_tasks = {}, disk = Missing\<rparr>
            [(''a'', PyInt 1, None, None), (''b'', PyInt 2, None, None), (''c'', PyInt 2, None, None)])) ''a''
       = (Raised TypeError, [],
          \<lparr>tasks = [Entry Tuple 2 \<lparr>name = ''b'', priority = 2, dependencies = [], due_date = None\<rparr>,
                    Entry Tuple 2 \<lparr>name = ''c'', priority = 2, dependencies = [], due_date = None\<rparr>],
           completed_tasks = {},
           disk = Doc (Some [(1, \<lparr>name = ''a'', priority = 1, dependencies = [], due_date = None\<rparr>),
                             (2, \<lparr>name = ''b'', priority = 2, dependencies = [], due_date = None\<rparr>),
                             (2, \<lparr>name = ''c'', priority = 2, dependencies = [], due_date = None\<rparr>)])
                      (Some {})\<rparr>)"
    by code_simp
  have restore_raises: "fst (complete_task (snd (add_all \<lparr>tasks = [], completed_tasks = {}, disk = Missing\<rparr>
            [(''a'', PyInt 1, None, None), (''b'', PyInt 1, None, None)])) ''zzz'')
       = Raised TypeError"
    by code_simp
  have restore_printed: "fst (snd (complete_task (snd (add_all \<lparr>tasks = [], completed_tasks = {}, disk = Missing\<rparr>
            [(''a'', PyInt 1, None, None), (''b'', PyInt 1, None, None)])) ''zzz''))
       = [NotFound ''zzz'']"
    by code_simp
  from general three ties drain_raises restore_raises restore_printed show ?thesis
    by blast
qed


theorem equal_priorities_clash_witness:
  "strip ''a'' \<noteq> [] \<and> strip ''b'' \<noteq> [] \<and> ''a'' \<noteq> ''b''
   \<and> tasks \<lparr>tasks = [], completed_tasks = {}, disk = Missing\<rparr> = []
   \<and> fst (add_all \<lparr>tasks = [], completed_tasks = {}, disk = Missing\<rparr>
            [(''a'', PyInt 1, None, None), (''b'', PyInt 1, None, None)]) = Raised TypeError"
proof -
  have h: "strip ''a'' \<noteq> [] \<and> strip ''b'' \<noteq> [] \<and> ''a'' \<noteq> ''b''
     \<and> tasks \<lparr>tasks = [], completed_tasks = {}, disk = Missing\<rparr> = []"
    by (simp add: strip_def isspace_def)
  with equal_priorities_clash
         [of "''a''" "''b''" "\<lparr>tasks = [], completed_tasks = {}, disk = Missing\<rparr>" 1 None None None None]
  show ?thesis
    by blast
qed

text \<open>
  C4 as stated fails in its conclusion that equal priorities are unreachable: three
  successful \<open>add_task\<close> calls leave \<open>b\<close> and \<open>c\<close> pending, both at priority 2.
\<close>

theorem equal_priorities_unreachable_counterexample:
  "fst (add_all \<lparr>tasks = [], completed_tasks = {}, disk = Missing\<rparr>
          [(''a'', PyInt 1, None, None), (''b'', PyInt 2, None, None), (''c'', PyInt 2, None, None)])
     = Returned PyNone
   \<and> tasks (snd (add_all \<lparr>tasks = [], completed_tasks = {}, disk = Missing\<rparr>
          [(''a'', PyInt 1, None, None), (''b'', PyInt 2, None, None), (''c'', PyInt 2, None, None)]))
     = [Entry Tuple 1 \<lparr>name = ''a'', priority = 1, dependencies = [], due_date = None\<rparr>,
        Entry Tuple 2 \<lparr>name = ''b'', priority = 2, dependencies = [], due_date = None\<rparr>,
        Entry Tuple 2 \<lparr>name = ''c'', priority = 2, dependencies = [], due_date = None\<rparr>]"
  by code_simp

section \<open>A name that is not pending\<close>

text \<open>When the call finishes and no pending task has the name, nothing changes.\<close>

lemma complete_task_no_match_unchanged:
  assumes "complete_task m n = (Returned v, out, m')"
    and "\<forall>x\<in>set (tasks m). name (task x) \<noteq> n"
  shows "pending m' = pending m \<and> completed_tasks m' = completed_tasks m"
proof -
  from complete_task_returned [OF assms(1)]
  have ms: "mset (tasks m') = image_mset retuple (filter_mset (\<lambda>x. name (task x) \<noteq> n) (mset (tasks m)))"
    and c: "completed_tasks m' =
         (if \<exists>x\<in>set (tasks m). name (task x) = n then insert n (completed_tasks m)
          else completed_tasks m)"
    by blast+
  from ms have "pending m' = filter_mset (\<lambda>(p, t). name t \<noteq> n) (pending m)"
    unfolding pending_def by (rule pending_retuple)
  also from assms(2) have "\<dots> = pending m"
    unfolding pending_def by (auto intro!: filter_mset_eq_conv [THEN iffD2])
  finally show ?thesis
    using c assms(2) by simp
qed

text \<open>
  C5 states that \<open>complete_task\<close> with a name that matches no pending task leaves the
  pending tasks and the completed names as they were. The code breaks it on a state reached
  by three successful \<open>add_task\<close> calls (\<open>a\<close> at 1, \<open>b\<close> and \<open>c\<close> at 2):
  \<open>complete_task("zzz")\<close> pops \<open>a\<close>, the sift then compares \<open>b\<close> with \<open>c\<close> and raises
  \<open>TypeError\<close>; \<open>a\<close> was held in a local only and is gone from \<open>self.tasks\<close>.
\<close>

theorem complete_task_no_match_drops_task:
  "fst (add_all \<lparr>tasks = [], completed_tasks = {}, disk = Missing\<rparr>
          [(''a'', PyInt 1, None, None), (''b'', PyInt 2, None, None), (''c'', PyInt 2, None, None)])
     = Returned PyNone
   \<and> map (\<lambda>x. name (task x))
        (tasks (snd (add_all \<lparr>tasks = [], completed_tasks = {}, disk = Missing\<rparr>
          [(''a'', PyInt 1, None, None), (''b'', PyInt 2, None, None), (''c'', PyInt 2, None, None)])))
     = [''a'', ''b'', ''c'']
   \<and> fst (complete_task
          (snd (add_all \<lparr>tasks = [], completed_tasks = {}, disk = Missing\<rparr>
            [(''a'', PyInt 1, None, None), (''b'', PyInt 2, None, None), (''c'', PyInt 2, None, None)]))
          ''zzz'')
     = Raised TypeError
   \<and> map (\<lambda>x. name (task x))
        (tasks (snd (snd (complete_task
          (snd (add_all \<lparr>tasks = [], completed_tasks = {}, disk = Missing\<rparr>
            [(''a'', PyInt 1, None, None), (''b'', PyInt 2, None, None), (''c'', PyInt 2, None, None)]))
          ''zzz''))))
     = [''b'', ''c'']"
  by code_simp

section \<open>Saving and loading again\<close>

text \<open>\<open>heapify\<close> permutes the list and, when no two elements clash, does not raise; a
  construction that succeeds gives back what was saved.\<close>

lemma heapify_from_mset: "mset (snd (heapify_from h k)) = mset h"
proof (induction k arbitrary: h)
  case 0
  then show ?case by simp
next
  case (Suc k)
  have "mset (snd (siftup h k)) = mset h"
    by (rule siftup_mset)
  with Suc [of "snd (siftup h k)"] show ?case
    by (cases "siftup h k") (simp split: result.splits)
qed

lemma heapify_mset: "mset (snd (heapify h)) = mset h"
  by (simp add: heapify_def heapify_from_mset)

lemma heapify_from_ok: "orderable h \<Longrightarrow> k \<le> length h \<Longrightarrow> fst (heapify_from h k) = Returned ()"
proof (induction k arbitrary: h)
  case 0
  then show ?case by simp
next
  case (Suc k)
  from Suc.prems have "fst (siftup h k) = Returned ()"
    by (intro siftup_ok) simp_all
  then obtain h' where h': "siftup h k = (Returned (), h')"
    by (cases "siftup h k") simp
  then have "mset h' = mset h"
    using siftup_mset [of h k] by simp
  then have "set h' = set h" "length h' = length h"
    by (auto dest: mset_eq_setD mset_eq_length)
  with Suc.prems have "orderable h'" "k \<le> length h'"
    by (simp_all add: orderable_subset)
  then have "fst (heapify_from h' k) = Returned ()"
    by (rule Suc.IH)
  with h' show ?case
    by simp
qed

lemma heapify_ok: "orderable h \<Longrightarrow> fst (heapify h) = Returned ()"
  by (simp add: heapify_def heapify_from_ok)

lemma save_load_roundtrip:
  assumes "init (disk (save_tasks m)) = Inr m'"
  shows "pending m' = pending m \<and> completed_tasks m' = completed_tasks m"
proof -
  let ?l = "map (\<lambda>(p, t). Entry List p t) (map (\<lambda>x. (prio x, task x)) (tasks m))"
  obtain r h where hp: "heapify ?l = (r, h)"
    by (cases "heapify ?l")
  with assms have m': "m' = \<lparr>tasks = h, completed_tasks = completed_tasks m, disk = disk (save_tasks m)\<rparr>"
    by (cases r) (simp_all add: init_def load_tasks_def save_tasks_def)
  from hp have "mset h = mset ?l"
    using heapify_mset [of ?l] by simp
  then have "image_mset (\<lambda>x. (prio x, task x)) (mset h) = image_mset (\<lambda>x. (prio x, task x)) (mset ?l)"
    by simp
  also have "\<dots> = mset (map (\<lambda>x. (prio x, task x)) (tasks m))"
    by (simp add: comp_def image_mset.compositionality)
  finally show ?thesis
    by (simp add: m' pending_def)
qed

text \<open>
  C9 states that saving and then constructing a new store from the file gives back the
  pending tasks and the completed names. The code breaks it on the same reachable state:
  \<open>heapify\<close> compares the siblings \<open>b\<close> and \<open>c\<close>, which the pushes never compared, and
  the construction raises \<open>TypeError\<close>.
\<close>

theorem save_then_load_raises:
  "fst (add_all \<lparr>tasks = [], completed_tasks = {}, disk = Missing\<rparr>
          [(''a'', PyInt 1, None, None), (''b'', PyInt 2, None, None), (''c'', PyInt 2, None, None)])
     = Returned PyNone
   \<and> init (disk (save_tasks
          (snd (add_all \<lparr>tasks = [], completed_tasks = {}, disk = Missing\<rparr>
            [(''a'', PyInt 1, None, None), (''b'', PyInt 2, None, None), (''c'', PyInt 2, None, None)]))))
     = Inl TypeError"
  by code_simp

section \<open>Executable tasks\<close>



section \<open>\<open>next_task\<close> looks at the root only\<close>

text \<open>
  The heap property that \<open>heapq\<close> maintains, on the priorities: no element has a smaller
  priority than its parent.
\<close>

definition heap_ordered :: "entry list \<Rightarrow> bool" where
  "heap_ordered h \<longleftrightarrow> (\<forall>i<length h. 0 < i \<longrightarrow> prio (h ! ((i - 1) div 2)) \<le> prio (h ! i))"

lemma heap_root_least:
  assumes "heap_ordered h"
  shows "i < length h \<Longrightarrow> prio (h ! 0) \<le> prio (h ! i)"
proof (induction i rule: less_induct)
  case (less i)
  show ?case
  proof (cases "i = 0")
    case True
    then show ?thesis by simp
  next
    case False
    then have par: "(i - 1) div 2 < i"
      by simp
    with less.prems have "(i - 1) div 2 < length h"
      by simp
    with par have "prio (h ! 0) \<le> prio (h ! ((i - 1) div 2))"
      by (rule less.IH)
    moreover from assms less.prems False have "prio (h ! ((i - 1) div 2)) \<le> prio (h ! i)"
      by (simp add: heap_ordered_def)
    ultimately show ?thesis
      by simp
  qed
qed

lemma nth_swap:
  "a < length h \<Longrightarrow> b < length h \<Longrightarrow> i < length h \<Longrightarrow>
     swap h a b ! i = (if i = b then h ! a else if i = a then h ! b else h ! i)"
  by (simp add: swap_def nth_list_update)

lemma entry_lt_True: "entry_lt x y = Inr True \<Longrightarrow> prio x < prio y"
  by (simp add: entry_lt_def split: if_splits)

lemma entry_lt_False: "entry_lt x y = Inr False \<Longrightarrow> prio y \<le> prio x"
  by (simp add: entry_lt_def split: if_splits)

lemma parent_less: "0 < i \<Longrightarrow> (i - 1) div 2 < (i::nat)"
  by arith

text \<open>
  \<open>below k p\<close>: position \<open>p\<close> lies in the subtree of the heap rooted at position \<open>k\<close>.
\<close>

inductive below :: "nat \<Rightarrow> nat \<Rightarrow> bool" for k where
  root: "below k k"
| left: "below k p \<Longrightarrow> below k (2 * p + 1)"
| right: "below k p \<Longrightarrow> below k (2 * p + 2)"

lemma below_le: "below k p \<Longrightarrow> k \<le> p"
  by (induction rule: below.induct) simp_all

lemma below_parent: "below k p \<Longrightarrow> k < p \<Longrightarrow> below k ((p - 1) div 2)"
  by (induction rule: below.induct) simp_all

text \<open>The heap property on the pairs whose parent is at position \<open>k\<close> or later.\<close>

definition heap_from :: "entry list \<Rightarrow> nat \<Rightarrow> bool" where
  "heap_from h k \<longleftrightarrow>
     (\<forall>i<length h. 0 < i \<longrightarrow> k \<le> (i - 1) div 2 \<longrightarrow> prio (h ! ((i - 1) div 2)) \<le> prio (h ! i))"

text \<open>
  The invariant of \<open>_siftdown\<close>: the heap property from \<open>k\<close> holds except between
  \<open>pos\<close> and its parent, and the children of \<open>pos\<close> are not below that parent.
\<close>

definition sift_inv :: "entry list \<Rightarrow> nat \<Rightarrow> nat \<Rightarrow> bool" where
  "sift_inv h k pos \<longleftrightarrow>
     (\<forall>i<length h. 0 < i \<longrightarrow> k \<le> (i - 1) div 2 \<longrightarrow> i \<noteq> pos \<longrightarrow>
          prio (h ! ((i - 1) div 2)) \<le> prio (h ! i))
     \<and> (\<forall>i<length h. 0 < i \<longrightarrow> k < pos \<longrightarrow> (i - 1) div 2 = pos \<longrightarrow>
            prio (h ! ((pos - 1) div 2)) \<le> prio (h ! i))"

lemma sift_inv_swap:
  assumes he: "sift_inv h k pos" and pos: "pos < length h" "k < pos" and bel: "below k pos"
    and lt: "prio (h ! pos) < prio (h ! ((pos - 1) div 2))"
  shows "sift_inv (swap h pos ((pos - 1) div 2)) k ((pos - 1) div 2)"
proof -
  define par where "par = (pos - 1) div 2"
  define h' where "h' = swap h pos par"
  from pos have pos0: "0 < pos"
    by simp
  have bpar: "below k par"
    using bel pos(2) unfolding par_def by (rule below_parent)
  have par: "par < length h" "par < pos" "k \<le> par"
    using pos parent_less [of pos] below_le [OF bpar] by (simp_all add: par_def)
  have lt': "prio (h ! pos) < prio (h ! par)"
    using lt by (simp add: par_def)
  have at_par: "h' ! par = h ! pos" and at_pos: "h' ! pos = h ! par"
    using nth_swap [OF pos(1) par(1) par(1)] nth_swap [OF pos(1) par(1) pos(1)] par(2)
    by (simp_all add: h'_def)
  have other: "h' ! i = h ! i" if "i < length h" "i \<noteq> pos" "i \<noteq> par" for i
    using nth_swap [OF pos(1) par(1) that(1)] that(2,3) by (simp add: h'_def)
  have A: "prio (h ! ((i - 1) div 2)) \<le> prio (h ! i)"
    if "i < length h" "0 < i" "k \<le> (i - 1) div 2" "i \<noteq> pos" for i
    using he that by (simp add: sift_inv_def)
  have B: "prio (h ! par) \<le> prio (h ! i)"
    if "i < length h" "0 < i" "(i - 1) div 2 = pos" for i
    using he pos that by (simp add: sift_inv_def par_def)
  have 1: "prio (h' ! ((i - 1) div 2)) \<le> prio (h' ! i)"
    if i: "i < length h" "0 < i" "k \<le> (i - 1) div 2" "i \<noteq> par" for i
  proof -
    define q where "q = (i - 1) div 2"
    have q: "q < i" "q < length h" "k \<le> q"
      using parent_less [OF i(2)] i(1,3) by (simp_all add: q_def)
    consider "i = pos" | "i \<noteq> pos" "q = pos" | "i \<noteq> pos" "q = par" | "i \<noteq> pos" "q \<noteq> pos" "q \<noteq> par"
      by blast
    then have "prio (h' ! q) \<le> prio (h' ! i)"
    proof cases
      case 1
      then have "q = par"
        by (simp add: q_def par_def)
      with 1 lt' show ?thesis
        by (simp add: at_par at_pos)
    next
      case 2
      from B [OF i(1,2)] 2(2) have "prio (h ! par) \<le> prio (h ! i)"
        by (simp add: q_def)
      with 2 i show ?thesis
        by (simp add: at_pos other)
    next
      case 3
      from A [OF i(1,2,3) 3(1)] 3(2) have "prio (h ! par) \<le> prio (h ! i)"
        by (simp add: q_def)
      with lt' have "prio (h ! pos) \<le> prio (h ! i)"
        by simp
      with 3 i show ?thesis
        by (simp add: at_par other)
    next
      case 4
      from A [OF i(1,2,3) 4(1)] have "prio (h ! q) \<le> prio (h ! i)"
        by (simp add: q_def)
      with 4 i q show ?thesis
        by (simp add: other)
    qed
    then show ?thesis
      by (simp add: q_def)
  qed
  have 2: "prio (h' ! ((par - 1) div 2)) \<le> prio (h' ! i)"
    if i: "i < length h" "0 < i" "k < par" "(i - 1) div 2 = par" for i
  proof -
    define g where "g = (par - 1) div 2"
    from i(3) have par0: "0 < par"
      by simp
    have "below k g"
      using bpar i(3) unfolding g_def by (rule below_parent)
    then have kg: "k \<le> g"
      by (rule below_le)
    have g: "g < par" "g < length h"
      using parent_less [OF par0] par(1) by (simp_all add: g_def)
    with par have hg: "h' ! g = h ! g"
      by (simp add: other)
    have gp: "prio (h ! g) \<le> prio (h ! par)"
      using A [OF par(1) par0] kg par(2) by (simp add: g_def)
    have ne: "i \<noteq> par"
      using parent_less [OF i(2)] i(4) by simp
    have "prio (h' ! g) \<le> prio (h' ! i)"
    proof (cases "i = pos")
      case True
      with gp show ?thesis
        by (simp add: hg at_pos)
    next
      case False
      from A [OF i(1,2) _ False] i(4) par(3) have "prio (h ! par) \<le> prio (h ! i)"
        by simp
      with gp have "prio (h ! g) \<le> prio (h ! i)"
        by simp
      with False ne i(1) show ?thesis
        by (simp add: hg other)
    qed
    then show ?thesis
      by (simp add: g_def)
  qed
  have "length h' = length h"
    by (simp add: h'_def)
  with 1 2 have "sift_inv h' k par"
    unfolding sift_inv_def by simp
  then show ?thesis
    by (simp add: h'_def par_def)
qed

lemma siftdown_heap_from:
  "sift_inv h k pos \<Longrightarrow> below k pos \<Longrightarrow> pos < length h
     \<Longrightarrow> siftdown h k pos = (Returned u, h') \<Longrightarrow> heap_from h' k"
proof (induction h k pos rule: siftdown.induct)
  case (1 h k pos)
  have settled: "heap_from h k" if "k < pos \<longrightarrow> prio (h ! ((pos - 1) div 2)) \<le> prio (h ! pos)"
    unfolding heap_from_def
  proof (intro allI impI)
    fix i
    assume i: "i < length h" "0 < i" "k \<le> (i - 1) div 2"
    show "prio (h ! ((i - 1) div 2)) \<le> prio (h ! i)"
    proof (cases "i = pos")
      case True
      with i parent_less [OF i(2)] have "k < pos"
        by simp
      with that True show ?thesis
        by simp
    next
      case False
      with "1.prems"(1) i show ?thesis
        by (simp add: sift_inv_def)
    qed
  qed
  show ?case
  proof (cases "k < pos")
    case False
    with "1.prems"(3,4) have "h' = h"
      by (subst (asm) siftdown.simps) simp
    with False settled show ?thesis
      by simp
  next
    case True
    let ?par = "(pos - 1) div 2"
    from "1.prems"(3,4) True obtain b where b: "entry_lt (h ! pos) (h ! ?par) = Inr b"
      by (subst (asm) siftdown.simps) (auto split: sum.splits)
    show ?thesis
    proof (cases b)
      case False
      with b "1.prems"(3,4) True have "h' = h"
        by (subst (asm) siftdown.simps) simp
      moreover from b False have "prio (h ! ?par) \<le> prio (h ! pos)"
        by (simp add: entry_lt_False)
      ultimately show ?thesis
        using settled by simp
    next
      case bt: True
      with b have lt: "prio (h ! pos) < prio (h ! ?par)"
        by (simp add: entry_lt_True)
      from b bt "1.prems"(3,4) True
      have run: "siftdown (swap h pos ?par) k ?par = (Returned u, h')"
        by (subst (asm) siftdown.simps) simp
      show ?thesis
      proof (rule "1.IH")
        show "\<not> length h \<le> pos" using "1.prems"(3) by simp
        show "k < pos" by (rule True)
        show "entry_lt (h ! pos) (h ! ?par) = Inr b" by (rule b)
        show "b = True" using bt by simp
        show "sift_inv (swap h pos ?par) k ?par"
          using "1.prems"(1,3) True "1.prems"(2) lt by (rule sift_inv_swap)
        show "below k ?par"
          using "1.prems"(2) True by (rule below_parent)
        show "?par < length (swap h pos ?par)"
          using "1.prems"(3) by simp
        show "siftdown (swap h pos ?par) k ?par = (Returned u, h')"
          by (rule run)
      qed
    qed
  qed
qed


text \<open>
  The invariant of the first loop of \<open>_siftup\<close>: the element carried down sits at
  \<open>pos\<close>; only the pairs that involve \<open>pos\<close> may be out of order, and the children of
  \<open>pos\<close> are not below its parent.
\<close>

definition bubble_inv :: "entry list \<Rightarrow> nat \<Rightarrow> nat \<Rightarrow> bool" where
  "bubble_inv h k pos \<longleftrightarrow>
     (\<forall>i<length h. 0 < i \<longrightarrow> k \<le> (i - 1) div 2 \<longrightarrow> i \<noteq> pos \<longrightarrow> (i - 1) div 2 \<noteq> pos \<longrightarrow>
          prio (h ! ((i - 1) div 2)) \<le> prio (h ! i))
     \<and> (\<forall>i<length h. 0 < i \<longrightarrow> k < pos \<longrightarrow> (i - 1) div 2 = pos \<longrightarrow>
            prio (h ! ((pos - 1) div 2)) \<le> prio (h ! i))"

lemma bubble_inv_swap:
  assumes inv: "bubble_inv h k pos" and bel: "below k pos"
    and c: "c < length h" "0 < c" "(c - 1) div 2 = pos"
    and least: "\<And>s. s < length h \<Longrightarrow> 0 < s \<Longrightarrow> (s - 1) div 2 = pos \<Longrightarrow> prio (h ! c) \<le> prio (h ! s)"
  shows "bubble_inv (swap h pos c) k c"
proof -
  define h' where "h' = swap h pos c"
  have pc: "pos < c" "pos < length h" "k \<le> pos"
    using parent_less [OF c(2)] c(1,3) below_le [OF bel] by simp_all
  have at_c: "h' ! c = h ! pos" and at_pos: "h' ! pos = h ! c"
    using nth_swap [OF pc(2) c(1) c(1)] nth_swap [OF pc(2) c(1) pc(2)] pc(1)
    by (simp_all add: h'_def)
  have other: "h' ! i = h ! i" if "i < length h" "i \<noteq> pos" "i \<noteq> c" for i
    using nth_swap [OF pc(2) c(1) that(1)] that(2,3) by (simp add: h'_def)
  have A: "prio (h ! ((i - 1) div 2)) \<le> prio (h ! i)"
    if "i < length h" "0 < i" "k \<le> (i - 1) div 2" "i \<noteq> pos" "(i - 1) div 2 \<noteq> pos" for i
    using inv that by (simp add: bubble_inv_def)
  have B: "prio (h ! ((pos - 1) div 2)) \<le> prio (h ! i)"
    if "i < length h" "0 < i" "k < pos" "(i - 1) div 2 = pos" for i
    using inv that by (simp add: bubble_inv_def)
  have 1: "prio (h' ! ((i - 1) div 2)) \<le> prio (h' ! i)"
    if i: "i < length h" "0 < i" "k \<le> (i - 1) div 2" "i \<noteq> c" "(i - 1) div 2 \<noteq> c" for i
  proof -
    define q where "q = (i - 1) div 2"
    have q: "q < i" "q < length h" "k \<le> q" "q \<noteq> c"
      using parent_less [OF i(2)] i(1,3,5) by (simp_all add: q_def)
    consider "i = pos" | "i \<noteq> pos" "q = pos" | "i \<noteq> pos" "q \<noteq> pos"
      by blast
    then have "prio (h' ! q) \<le> prio (h' ! i)"
    proof cases
      case 1
      with q have kp: "k < pos" and qp: "q \<noteq> pos"
        by simp_all
      from B [OF c(1,2) kp c(3)] 1 have "prio (h ! q) \<le> prio (h ! c)"
        by (simp add: q_def)
      with 1 q qp show ?thesis
        by (simp add: at_pos other)
    next
      case 2
      from least [OF i(1,2)] 2(2) have "prio (h ! c) \<le> prio (h ! i)"
        by (simp add: q_def)
      with 2 i show ?thesis
        by (simp add: at_pos other)
    next
      case 3
      from A [OF i(1,2,3) 3(1)] 3(2) have "prio (h ! q) \<le> prio (h ! i)"
        by (simp add: q_def)
      with 3 i q show ?thesis
        by (simp add: other)
    qed
    then show ?thesis
      by (simp add: q_def)
  qed
  have 2: "prio (h' ! ((c - 1) div 2)) \<le> prio (h' ! i)"
    if i: "i < length h" "0 < i" "(i - 1) div 2 = c" for i
  proof -
    have ic: "c < i"
      using parent_less [OF i(2)] i(3) by simp
    with pc have ne: "i \<noteq> pos" "i \<noteq> c"
      by simp_all
    from pc(1) have cp: "c \<noteq> pos"
      by simp
    from A [OF i(1,2) _ ne(1)] i(3) pc cp have "prio (h ! c) \<le> prio (h ! i)"
      by simp
    with ne i(1) have "prio (h' ! pos) \<le> prio (h' ! i)"
      by (simp add: at_pos other)
    then show ?thesis
      by (simp only: c(3))
  qed
  have "length h' = length h"
    by (simp add: h'_def)
  with 1 2 have "bubble_inv h' k c"
    unfolding bubble_inv_def by simp
  then show ?thesis
    by (simp add: h'_def)
qed


lemma child_cases: "0 < s \<Longrightarrow> (s - 1) div 2 = pos \<Longrightarrow> s = 2 * pos + 1 \<or> s = 2 * pos + (2::nat)"
  by arith

lemma bubble_inv_leaf:
  assumes "bubble_inv h k pos" "\<not> 2 * pos + 1 < length h"
  shows "sift_inv h k pos"
  unfolding sift_inv_def
proof (intro conjI allI impI)
  fix i
  assume i: "i < length h" "0 < i" "k \<le> (i - 1) div 2" "i \<noteq> pos"
  have "(i - 1) div 2 \<noteq> pos"
    using child_cases [OF i(2), of pos] i(1) assms(2) by auto
  with assms(1) i show "prio (h ! ((i - 1) div 2)) \<le> prio (h ! i)"
    by (simp add: bubble_inv_def)
next
  fix i
  assume i: "i < length h" "0 < i" "(i - 1) div 2 = pos"
  then have False
    using child_cases [OF i(2,3)] assms(2) by auto
  then show "prio (h ! ((pos - 1) div 2)) \<le> prio (h ! i)" ..
qed

lemma bubble_up_inv:
  "bubble_inv h k pos \<Longrightarrow> below k pos \<Longrightarrow> pos < length h
     \<Longrightarrow> bubble_up h pos = (Returned l, h')
     \<Longrightarrow> sift_inv h' k l \<and> below k l \<and> l < length h'"
proof (induction h pos rule: bubble_up.induct)
  case (1 h pos)
  show ?case
  proof (cases "2 * pos + 1 < length h")
    case False
    with "1.prems"(4) have "l = pos" "h' = h"
      by (subst (asm) bubble_up.simps; simp)+
    with False "1.prems"(1,2,3) show ?thesis
      by (simp add: bubble_inv_leaf)
  next
    case left: True
    have pl: "(2 * pos + 1 - 1) div 2 = pos" and pr: "(2 * pos + 2 - 1) div 2 = pos"
      by simp_all
    show ?thesis
    proof (cases "2 * pos + 2 < length h")
      case False
      from left False "1.prems"(4)
      have run: "bubble_up (swap h pos (2 * pos + 1)) (2 * pos + 1) = (Returned l, h')"
        by (subst (asm) bubble_up.simps) simp
      have least: "prio (h ! (2 * pos + 1)) \<le> prio (h ! s)"
        if "s < length h" "0 < s" "(s - 1) div 2 = pos" for s
        using child_cases [OF that(2,3)] that(1) False by auto
      show ?thesis
      proof (rule "1.IH"(3) [OF left False])
        show "bubble_inv (swap h pos (2 * pos + 1)) k (2 * pos + 1)"
          using "1.prems"(1,2) left _ pl least by (rule bubble_inv_swap) simp
        show "below k (2 * pos + 1)"
          using "1.prems"(2) by (rule below.left)
        show "2 * pos + 1 < length (swap h pos (2 * pos + 1))"
          using left by simp
        show "bubble_up (swap h pos (2 * pos + 1)) (2 * pos + 1) = (Returned l, h')"
          by (rule run)
      qed
    next
      case right: True
      from left right "1.prems"(4)
      obtain b where b: "entry_lt (h ! (2 * pos + 1)) (h ! (2 * pos + 2)) = Inr b"
        by (subst (asm) bubble_up.simps) (auto split: sum.splits)
      show ?thesis
      proof (cases b)
        case True
        with b left right "1.prems"(4)
        have run: "bubble_up (swap h pos (2 * pos + 1)) (2 * pos + 1) = (Returned l, h')"
          by (subst (asm) bubble_up.simps) simp
        from b True have "prio (h ! (2 * pos + 1)) < prio (h ! (2 * pos + 2))"
          by (simp add: entry_lt_True)
        then have least: "prio (h ! (2 * pos + 1)) \<le> prio (h ! s)"
          if "s < length h" "0 < s" "(s - 1) div 2 = pos" for s
          using child_cases [OF that(2,3)] by auto
        show ?thesis
        proof (rule "1.IH"(1) [OF left right b])
          show "b = True" using True by simp
          show "bubble_inv (swap h pos (2 * pos + 1)) k (2 * pos + 1)"
            using "1.prems"(1,2) left _ pl least by (rule bubble_inv_swap) simp
          show "below k (2 * pos + 1)"
            using "1.prems"(2) by (rule below.left)
          show "2 * pos + 1 < length (swap h pos (2 * pos + 1))"
            using left by simp
          show "bubble_up (swap h pos (2 * pos + 1)) (2 * pos + 1) = (Returned l, h')"
            by (rule run)
        qed
      next
        case False
        with b left right "1.prems"(4)
        have run: "bubble_up (swap h pos (2 * pos + 2)) (2 * pos + 2) = (Returned l, h')"
          by (subst (asm) bubble_up.simps) simp
        from b False have "prio (h ! (2 * pos + 2)) \<le> prio (h ! (2 * pos + 1))"
          by (simp add: entry_lt_False)
        then have least: "prio (h ! (2 * pos + 2)) \<le> prio (h ! s)"
          if "s < length h" "0 < s" "(s - 1) div 2 = pos" for s
          using child_cases [OF that(2,3)] by auto
        show ?thesis
        proof (rule "1.IH"(2) [OF left right b])
          show "b = False" using False by simp
          show "bubble_inv (swap h pos (2 * pos + 2)) k (2 * pos + 2)"
            using "1.prems"(1,2) right _ pr least by (rule bubble_inv_swap) simp
          show "below k (2 * pos + 2)"
            using "1.prems"(2) by (rule below.right)
          show "2 * pos + 2 < length (swap h pos (2 * pos + 2))"
            using right by simp
          show "bubble_up (swap h pos (2 * pos + 2)) (2 * pos + 2) = (Returned l, h')"
            by (rule run)
        qed
      qed
    qed
  qed
qed


lemma heap_from_root: "heap_from h 0 \<longleftrightarrow> heap_ordered h"
  by (simp add: heap_from_def heap_ordered_def)

lemma siftup_heap_from:
  assumes "heap_from h (Suc k)" "siftup h k = (Returned u, h')"
  shows "heap_from h' k"
proof -
  from assms(2) have k: "k < length h"
    by (cases "length h \<le> k") (simp_all add: siftup_def)
  obtain r h1 where bu: "bubble_up h k = (r, h1)"
    by (cases "bubble_up h k")
  with assms(2) k obtain l where r: "r = Returned l" and sd: "siftdown h1 k l = (Returned u, h')"
    by (cases r) (simp_all add: siftup_def)
  have "bubble_inv h k k"
    unfolding bubble_inv_def
  proof (intro conjI allI impI)
    fix i
    assume "i < length h" "0 < i" "k \<le> (i - 1) div 2" "i \<noteq> k" "(i - 1) div 2 \<noteq> k"
    with assms(1) show "prio (h ! ((i - 1) div 2)) \<le> prio (h ! i)"
      by (simp add: heap_from_def)
  qed simp
  from this below.root k bu [unfolded r]
  have "sift_inv h1 k l \<and> below k l \<and> l < length h1"
    by (rule bubble_up_inv)
  then have "sift_inv h1 k l" "below k l" "l < length h1"
    by simp_all
  then show ?thesis
    using sd by (rule siftdown_heap_from)
qed

lemma heapify_from_heap:
  "heap_from h k \<Longrightarrow> heapify_from h k = (Returned u, h') \<Longrightarrow> heap_ordered h'"
proof (induction k arbitrary: h)
  case 0
  then show ?case
    by (simp add: heap_from_root)
next
  case (Suc k)
  from Suc.prems(2) obtain h1 where su: "siftup h k = (Returned (), h1)"
    and rest: "heapify_from h1 k = (Returned u, h')"
    by (auto split: prod.splits result.splits)
  from Suc.prems(1) su have "heap_from h1 k"
    by (rule siftup_heap_from)
  then show ?case
    using rest by (rule Suc.IH)
qed

lemma heap_from_leaves: "heap_from h (length h div 2)"
  unfolding heap_from_def
proof (intro allI impI)
  fix i
  assume i: "i < length h" "0 < i" "length h div 2 \<le> (i - 1) div 2"
  then have False
    by arith
  then show "prio (h ! ((i - 1) div 2)) \<le> prio (h ! i)" ..
qed

lemma heapify_heap_ordered: "heapify h = (Returned u, h') \<Longrightarrow> heap_ordered h'"
  unfolding heapify_def using heap_from_leaves by (rule heapify_from_heap)

lemma init_heap_ordered:
  assumes "init f = Inr m"
  shows "heap_ordered (tasks m)"
proof (cases f)
  case Missing
  with assms show ?thesis
    by (auto simp: init_def load_tasks_def heap_ordered_def)
next
  case NotJSON
  with assms show ?thesis
    by (simp add: init_def load_tasks_def)
next
  case NonObject
  with assms show ?thesis
    by (simp add: init_def load_tasks_def)
next
  case (Doc ts cs)
  let ?l = "map (\<lambda>(p, t). Entry List p t) (case ts of None \<Rightarrow> [] | Some l \<Rightarrow> l)"
  obtain r h where hp: "heapify ?l = (r, h)"
    by (cases "heapify ?l")
  with assms Doc have r: "r = Returned ()" and m: "tasks m = h"
    by (cases r; auto simp: init_def load_tasks_def)+
  from hp [unfolded r] have "heap_ordered h"
    by (rule heapify_heap_ordered)
  with m show ?thesis
    by simp
qed

lemma below_zero: "below 0 p"
proof (induction p rule: less_induct)
  case (less p)
  show ?case
  proof (cases "p = 0")
    case True
    then show ?thesis
      by (simp add: below.root)
  next
    case False
    then have "0 < p"
      by simp
    then have "(p - 1) div 2 < p"
      by (rule parent_less)
    then have b: "below 0 ((p - 1) div 2)"
      by (rule less.IH)
    from \<open>0 < p\<close> have "p = 2 * ((p - 1) div 2) + 1 \<or> p = 2 * ((p - 1) div 2) + 2"
      by arith
    then show ?thesis
    proof
      assume "p = 2 * ((p - 1) div 2) + 1"
      with below.left [OF b] show ?thesis by simp
    next
      assume "p = 2 * ((p - 1) div 2) + 2"
      with below.right [OF b] show ?thesis by simp
    qed
  qed
qed

lemma sift_inv_append:
  assumes "heap_ordered h"
  shows "sift_inv (h @ [x]) 0 (length h)"
  unfolding sift_inv_def
proof (intro conjI allI impI)
  fix i
  assume i: "i < length (h @ [x])" "0 < i" "i \<noteq> length h"
  then have "i < length h"
    by simp
  moreover from this i(2) have "(i - 1) div 2 < length h"
    using parent_less [of i] by simp
  ultimately show "prio ((h @ [x]) ! ((i - 1) div 2)) \<le> prio ((h @ [x]) ! i)"
    using assms i(2) by (simp add: nth_append heap_ordered_def)
next
  fix i
  assume "i < length (h @ [x])" "0 < i" "(i - 1) div 2 = length h"
  then have False
    using parent_less [of i] by simp
  then show "prio ((h @ [x]) ! ((length h - 1) div 2)) \<le> prio ((h @ [x]) ! i)" ..
qed

lemma heappush_heap_ordered:
  assumes "heap_ordered h" "heappush h x = (Returned u, h')"
  shows "heap_ordered h'"
proof -
  from assms(1) have "sift_inv (h @ [x]) 0 (length h)"
    by (rule sift_inv_append)
  moreover have "below 0 (length h)"
    by (rule below_zero)
  moreover have "length h < length (h @ [x])"
    by simp
  moreover from assms(2) have "siftdown (h @ [x]) 0 (length h) = (Returned u, h')"
    by (simp add: heappush_def)
  ultimately have "heap_from h' 0"
    by (rule siftdown_heap_from)
  then show ?thesis
    by (simp only: heap_from_root)
qed

lemma restore_heap_ordered:
  "heap_ordered h \<Longrightarrow> restore h xs = (Returned u, h') \<Longrightarrow> heap_ordered h'"
proof (induction xs arbitrary: h)
  case Nil
  then show ?case by simp
next
  case (Cons x xs)
  from Cons.prems(2) obtain h1 where push: "heappush h x = (Returned (), h1)"
    and rest: "restore h1 xs = (Returned u, h')"
    by (auto split: prod.splits result.splits)
  from Cons.prems(1) push have "heap_ordered h1"
    by (rule heappush_heap_ordered)
  then show ?case
    using rest by (rule Cons.IH)
qed


lemma add_task_heap_ordered:
  assumes "heap_ordered (tasks m)" "add_task m nm pr deps due = (Returned v, out, m')"
  shows "heap_ordered (tasks m')"
proof -
  from assms(2) obtain p where p: "as_int pr = Some p" and nm: "strip nm \<noteq> []"
    by (auto simp: add_task_def split: if_splits option.splits)
  let ?e = "Entry Tuple p \<lparr>name = nm, priority = p,
              dependencies = (case deps of None \<Rightarrow> [] | Some ds \<Rightarrow> ds), due_date = due\<rparr>"
  obtain r h where push: "heappush (tasks m) ?e = (r, h)"
    by (cases "heappush (tasks m) ?e")
  with assms(2) p nm have r: "r = Returned ()" and m': "m' = save_tasks (m\<lparr>tasks := h\<rparr>)"
    by (cases r; simp add: add_task_def)+
  from assms(1) push [unfolded r] have "heap_ordered h"
    by (rule heappush_heap_ordered)
  then show ?thesis
    by (simp add: m' save_tasks_def)
qed

lemma complete_task_heap_ordered:
  assumes "complete_task m n = (Returned v, out, m')"
  shows "heap_ordered (tasks m')"
proof -
  obtain r h d rem found
    where dr: "drain (tasks m) (completed_tasks m) n [] False = (r, h, d, rem, found)"
    using prod_cases5 by blast
  from assms dr have r: "r = Returned ()"
    by (cases r) (simp_all add: complete_task_def)
  obtain r2 h2 where rs: "restore h rem = (r2, h2)"
    by (cases "restore h rem")
  from assms dr r rs have r2: "r2 = Returned ()"
    by (cases r2) (simp_all add: complete_task_def)
  from assms dr r rs r2 have "m' = save_tasks (m\<lparr>tasks := h2, completed_tasks := d\<rparr>)"
    by (simp add: complete_task_def)
  then have m': "tasks m' = h2"
    by (simp add: save_tasks_def)
  from drain_returned [OF dr [unfolded r]] have "h = []"
    by simp
  then have "heap_ordered h"
    by (simp add: heap_ordered_def)
  from this rs [unfolded r2] have "heap_ordered h2"
    by (rule restore_heap_ordered)
  with m' show ?thesis
    by simp
qed

text \<open>
  \<open>next_task\<close> never changes the store. With no pending task it prints "No hay tareas
  pendientes." and returns \<open>None\<close>. Otherwise it looks at \<open>self.tasks[0]\<close> only: when the
  dependencies of that task are not all completed it prints the blocked line and returns
  \<open>None\<close>, whatever the other pending tasks are; when they are, it returns that task. In a
  list that has the heap property, \<open>self.tasks[0]\<close> is a task of least priority.
\<close>

lemma next_task_peeks_root:
  "snd (snd (next_task m)) = m
   \<and> (tasks m = [] \<longrightarrow> next_task m = (Returned PyNone, [NoPending], m))
   \<and> (tasks m \<noteq> [] \<and> \<not> is_executable m (task (tasks m ! 0)) \<longrightarrow>
        next_task m = (Returned PyNone, [Blocked], m))
   \<and> (tasks m \<noteq> [] \<and> is_executable m (task (tasks m ! 0)) \<longrightarrow>
        next_task m = (Returned (PyTask (task (tasks m ! 0))), [], m))
   \<and> (heap_ordered (tasks m) \<longrightarrow> (\<forall>x\<in>set (tasks m). prio (tasks m ! 0) \<le> prio x))"
proof -
  have "\<forall>x\<in>set (tasks m). prio (tasks m ! 0) \<le> prio x" if "heap_ordered (tasks m)"
    using heap_root_least [OF that] by (auto simp: in_set_conv_nth)
  then show ?thesis
    by (simp add: next_task_def)
qed

lemma next_task_peeks_root_example:
  "heap_ordered
     [Entry Tuple 1 \<lparr>name = ''A'', priority = 1, dependencies = [''ghost''], due_date = None\<rparr>,
      Entry Tuple 2 \<lparr>name = ''B'', priority = 2, dependencies = [], due_date = None\<rparr>]
   \<and> next_task
       \<lparr>tasks = [Entry Tuple 1 \<lparr>name = ''A'', priority = 1, dependencies = [''ghost''], due_date = None\<rparr>,
                 Entry Tuple 2 \<lparr>name = ''B'', priority = 2, dependencies = [], due_date = None\<rparr>],
        completed_tasks = {}, disk = Missing\<rparr>
     = (Returned PyNone, [Blocked],
        \<lparr>tasks = [Entry Tuple 1 \<lparr>name = ''A'', priority = 1, dependencies = [''ghost''], due_date = None\<rparr>,
                  Entry Tuple 2 \<lparr>name = ''B'', priority = 2, dependencies = [], due_date = None\<rparr>],
         completed_tasks = {}, disk = Missing\<rparr>)
   \<and> next_task \<lparr>tasks = [], completed_tasks = {}, disk = Missing\<rparr>
     = (Returned PyNone, [NoPending], \<lparr>tasks = [], completed_tasks = {}, disk = Missing\<rparr>)
   \<and> next_task
       \<lparr>tasks = [Entry Tuple 1 \<lparr>name = ''A'', priority = 1, dependencies = [''ghost''], due_date = None\<rparr>,
                 Entry Tuple 2 \<lparr>name = ''B'', priority = 2, dependencies = [], due_date = None\<rparr>],
        completed_tasks = {''ghost''}, disk = Missing\<rparr>
     = (Returned (PyTask \<lparr>name = ''A'', priority = 1, dependencies = [''ghost''], due_date = None\<rparr>), [],
        \<lparr>tasks = [Entry Tuple 1 \<lparr>name = ''A'', priority = 1, dependencies = [''ghost''], due_date = None\<rparr>,
                  Entry Tuple 2 \<lparr>name = ''B'', priority = 2, dependencies = [], due_date = None\<rparr>],
         completed_tasks = {''ghost''}, disk = Missing\<rparr>)"
proof -
  let ?h = "[Entry Tuple 1 \<lparr>name = ''A'', priority = 1, dependencies = [''ghost''], due_date = None\<rparr>,
      Entry Tuple 2 \<lparr>name = ''B'', priority = 2, dependencies = [], due_date = None\<rparr>]"
  let ?m = "\<lparr>tasks = ?h, completed_tasks = {}, disk = Missing\<rparr>"
  let ?e = "\<lparr>tasks = [], completed_tasks = {}, disk = Missing\<rparr>"
  let ?g = "\<lparr>tasks = ?h, completed_tasks = {''ghost''}, disk = Missing\<rparr>"
  have ho: "heap_ordered ?h"
    by (simp add: heap_ordered_def less_Suc_eq)
  have blocked: "tasks ?m \<noteq> [] \<and> \<not> is_executable ?m (task (tasks ?m ! 0))"
    by (simp add: is_executable_def)
  have empty: "tasks ?e = []"
    by simp
  have free: "tasks ?g \<noteq> [] \<and> is_executable ?g (task (tasks ?g ! 0))"
    by (simp add: is_executable_def)
  from next_task_peeks_root [of ?m] blocked
  have 1: "next_task ?m = (Returned PyNone, [Blocked], ?m)"
    by blast
  from next_task_peeks_root [of ?e] empty
  have 2: "next_task ?e = (Returned PyNone, [NoPending], ?e)"
    by blast
  from next_task_peeks_root [of ?g] free
  have "next_task ?g = (Returned (PyTask (task (tasks ?g ! 0))), [], ?g)"
    by blast
  then have 3: "next_task ?g
      = (Returned (PyTask \<lparr>name = ''A'', priority = 1, dependencies = [''ghost''], due_date = None\<rparr>), [], ?g)"
    by simp
  from ho 1 2 3 show ?thesis
    by blast
qed

text \<open>
  Every operation that finishes leaves a list with the heap property, so that after it
  \<open>self.tasks[0]\<close> is a pending task of least priority.
\<close>

lemma root_least_after_finishing:
  "(init f = Inr m \<longrightarrow> (\<forall>x\<in>set (tasks m). prio (tasks m ! 0) \<le> prio x))
   \<and> (heap_ordered (tasks m0) \<and> add_task m0 nm pr deps due = (Returned v, out, m) \<longrightarrow>
        (\<forall>x\<in>set (tasks m). prio (tasks m ! 0) \<le> prio x))
   \<and> (complete_task m0 n = (Returned v, out, m) \<longrightarrow>
        (\<forall>x\<in>set (tasks m). prio (tasks m ! 0) \<le> prio x))"
proof -
  have least: "\<forall>x\<in>set h. prio (h ! 0) \<le> prio x" if "heap_ordered h" for h
    using heap_root_least [OF that] by (auto simp: in_set_conv_nth)
  show ?thesis
  proof (intro conjI impI)
    assume "init f = Inr m"
    then have "heap_ordered (tasks m)"
      by (rule init_heap_ordered)
    then show "\<forall>x\<in>set (tasks m). prio (tasks m ! 0) \<le> prio x"
      by (rule least)
  next
    assume "heap_ordered (tasks m0) \<and> add_task m0 nm pr deps due = (Returned v, out, m)"
    then have "heap_ordered (tasks m)"
      using add_task_heap_ordered by blast
    then show "\<forall>x\<in>set (tasks m). prio (tasks m ! 0) \<le> prio x"
      by (rule least)
  next
    assume "complete_task m0 n = (Returned v, out, m)"
    then have "heap_ordered (tasks m)"
      by (rule complete_task_heap_ordered)
    then show "\<forall>x\<in>set (tasks m). prio (tasks m ! 0) \<le> prio x"
      by (rule least)
  qed
qed

text \<open>
  C6 states that in every store state \<open>next_task\<close> inspects the single pending task of
  minimum priority. The code breaks it in a state it reaches itself. After \<open>add_task\<close> of
  \<open>a\<close> at 1, \<open>b\<close> and \<open>c\<close> at 2 and \<open>d\<close> at 3 (all succeed), \<open>complete_task("zzz")\<close>
  moves \<open>d\<close> to the root, compares \<open>b\<close> with \<open>c\<close> and raises \<open>TypeError\<close> in the middle
  of the sift; the menu loop catches the exception and goes on with
  \<open>self.tasks = [d, b, c]\<close>, which is no heap. \<open>next_task\<close> then returns \<open>d\<close>, of
  priority 3, while \<open>b\<close> and \<open>c\<close>, of priority 2, are pending.
\<close>

theorem next_task_after_failed_complete_task:
  "fst (add_all \<lparr>tasks = [], completed_tasks = {}, disk = Missing\<rparr>
          [(''a'', PyInt 1, None, None), (''b'', PyInt 2, None, None),
           (''c'', PyInt 2, None, None), (''d'', PyInt 3, None, None)]) = Returned PyNone
   \<and> fst (complete_task
          (snd (add_all \<lparr>tasks = [], completed_tasks = {}, disk = Missing\<rparr>
            [(''a'', PyInt 1, None, None), (''b'', PyInt 2, None, None),
             (''c'', PyInt 2, None, None), (''d'', PyInt 3, None, None)]))
          ''zzz'') = Raised TypeError
   \<and> map (\<lambda>x. (name (task x), prio x))
        (tasks (snd (snd (complete_task
          (snd (add_all \<lparr>tasks = [], completed_tasks = {}, disk = Missing\<rparr>
            [(''a'', PyInt 1, None, None), (''b'', PyInt 2, None, None),
             (''c'', PyInt 2, None, None), (''d'', PyInt 3, None, None)]))
          ''zzz''))))
     = [(''d'', 3), (''b'', 2), (''c'', 2)]
   \<and> fst (next_task (snd (snd (complete_task
          (snd (add_all \<lparr>tasks = [], completed_tasks = {}, disk = Missing\<rparr>
            [(''a'', PyInt 1, None, None), (''b'', PyInt 2, None, None),
             (''c'', PyInt 2, None, None), (''d'', PyInt 3, None, None)]))
          ''zzz''))))
     = Returned (PyTask \<lparr>name = ''d'', priority = 3, dependencies = [], due_date = None\<rparr>)"
  by code_simp

text \<open>
  The same happens after a restart: the elements loaded from the file are lists, the
  element that \<open>add_task\<close> appends is a tuple, the sift cannot order the two and raises
  with the new element left at the end of the list, whatever its priority.
\<close>

lemma next_task_after_failed_add_task:
  "init (Doc (Some [(5, \<lparr>name = ''a'', priority = 5, dependencies = [], due_date = None\<rparr>)]) (Some {}))
     = Inr \<lparr>tasks = [Entry List 5 \<lparr>name = ''a'', priority = 5, dependencies = [], due_date = None\<rparr>],
            completed_tasks = {},
            disk = Doc (Some [(5, \<lparr>name = ''a'', priority = 5, dependencies = [], due_date = None\<rparr>)]) (Some {})\<rparr>
   \<and> add_task
        \<lparr>tasks = [Entry List 5 \<lparr>name = ''a'', priority = 5, dependencies = [], due_date = None\<rparr>],
         completed_tasks = {},
         disk = Doc (Some [(5, \<lparr>name = ''a'', priority = 5, dependencies = [], due_date = None\<rparr>)]) (Some {})\<rparr>
        ''b'' (PyInt 0) None None
     = (Raised TypeError, [],
        \<lparr>tasks = [Entry List 5 \<lparr>name = ''a'', priority = 5, dependencies = [], due_date = None\<rparr>,
                  Entry Tuple 0 \<lparr>name = ''b'', priority = 0, dependencies = [], due_date = None\<rparr>],
         completed_tasks = {},
         disk = Doc (Some [(5, \<lparr>name = ''a'', priority = 5, dependencies = [], due_date = None\<rparr>)]) (Some {})\<rparr>)
   \<and> fst (next_task
        \<lparr>tasks = [Entry List 5 \<lparr>name = ''a'', priority = 5, dependencies = [], due_date = None\<rparr>,
                  Entry Tuple 0 \<lparr>name = ''b'', priority = 0, dependencies = [], due_date = None\<rparr>],
         completed_tasks = {},
         disk = Doc (Some [(5, \<lparr>name = ''a'', priority = 5, dependencies = [], due_date = None\<rparr>)]) (Some {})\<rparr>)
     = Returned (PyTask \<lparr>name = ''a'', priority = 5, dependencies = [], due_date = None\<rparr>)"
  by code_simp

section \<open>The listing of \<open>show_tasks\<close>\<close>

text \<open>The priority and the task that a successful \<open>add_task\<close> call puts into the heap.\<close>

fun requested :: "string \<times> py_value \<times> string list option \<times> string option \<Rightarrow> int \<times> task" where
  "requested (nm, pr, deps, due) =
     (case as_int pr of None \<Rightarrow> 0 | Some p \<Rightarrow> p,
      \<lparr>name = nm, priority = (case as_int pr of None \<Rightarrow> 0 | Some p \<Rightarrow> p),
       dependencies = (case deps of None \<Rightarrow> [] | Some ds \<Rightarrow> ds), due_date = due\<rparr>)"

lemma add_task_pending:
  assumes "add_task m nm pr deps due = (Returned v, out, m')"
  shows "pending m' = add_mset (requested (nm, pr, deps, due)) (pending m)"
proof -
  from assms obtain p where p: "as_int pr = Some p" and nm: "strip nm \<noteq> []"
    by (auto simp: add_task_def split: if_splits option.splits)
  let ?e = "Entry Tuple p \<lparr>name = nm, priority = p,
              dependencies = (case deps of None \<Rightarrow> [] | Some ds \<Rightarrow> ds), due_date = due\<rparr>"
  obtain r h where push: "heappush (tasks m) ?e = (r, h)"
    by (cases "heappush (tasks m) ?e")
  with assms p nm have m': "m' = save_tasks (m\<lparr>tasks := h\<rparr>)"
    by (cases r) (simp_all add: add_task_def)
  from push have "mset h = add_mset ?e (mset (tasks m))"
    using heappush_mset [of "tasks m" ?e] by simp
  then have "image_mset (\<lambda>x. (prio x, task x)) (mset h)
             = add_mset (requested (nm, pr, deps, due)) (image_mset (\<lambda>x. (prio x, task x)) (mset (tasks m)))"
    by (simp add: p)
  then show ?thesis
    by (simp add: pending_def m' save_tasks_def)
qed

lemma add_all_pending:
  "add_all m calls = (Returned v, m') \<Longrightarrow> pending m' = pending m + mset (map requested calls)"
proof (induction calls arbitrary: m)
  case Nil
  then show ?case by simp
next
  case (Cons c calls)
  obtain nm pr deps due where c: "c = (nm, pr, deps, due)"
    by (cases c)
  obtain r out m1 where one: "add_task m nm pr deps due = (r, out, m1)"
    by (cases "add_task m nm pr deps due")
  with Cons.prems c obtain v1 where r: "r = Returned v1" and rest: "add_all m1 calls = (Returned v, m')"
    by (cases r) simp_all
  from one r have "pending m1 = add_mset (requested c) (pending m)"
    unfolding c by (intro add_task_pending) simp
  moreover from rest have "pending m' = pending m1 + mset (map requested calls)"
    by (rule Cons.IH)
  ultimately show ?case
    by simp
qed


text \<open>The second component of the sort key: \<open>None\<close> counts as the empty string, which
  is the least string.\<close>

definition due_key :: "entry \<Rightarrow> string" where
  "due_key x = (case due_date (task x) of None \<Rightarrow> [] | Some d \<Rightarrow> d)"

lemma show_tasks_order:
  "sorted_wrt (\<lambda>x y. prio x < prio y \<or> (prio x = prio y \<and> due_key x \<le> due_key y))
     (sort_key sort_key_of h)"
proof -
  have "sorted (map sort_key_of (sort_key sort_key_of h))"
    by (rule sorted_sort_key)
  then have "sorted_wrt (\<lambda>x y. sort_key_of x \<le> sort_key_of y) (sort_key sort_key_of h)"
    by (simp only: sorted_map)
  moreover have "prio x < prio y \<or> (prio x = prio y \<and> due_key x \<le> due_key y)"
    if "sort_key_of x \<le> sort_key_of y" for x y
  proof -
    from that have "prio x < prio y \<or> (prio x \<le> prio y \<and> due_key x \<le> due_key y)"
      by (simp only: sort_key_of_def due_key_def less_eq_prod_simp)
    then show ?thesis
      by (cases "prio x < prio y") simp_all
  qed
  ultimately show ?thesis
    by (rule sorted_wrt_mono_rel [rotated])
qed

text \<open>
  C3 (amended). After any sequence of \<open>add_task\<close> calls that all succeeded (from any
  store, with priorities of either sign, in any order), \<open>show_tasks\<close> prints one line per
  pending task, the pending tasks being those of the store before plus the ones added. The
  lines are in ascending order of priority and, within one priority, in ascending order of
  the key \<open>due_date or ""\<close>. A task without a due date is keyed as the empty string: it
  comes before every task of its priority whose due date is not empty, but it ties with a
  task whose due date is the empty string. Tasks with the same key are listed in the order
  they have in \<open>self.tasks\<close>, so a task with due date \<open>""\<close> may come before one with
  \<open>None\<close>. \<open>show_tasks\<close> returns \<open>None\<close> and leaves the store as it was.
\<close>

theorem show_tasks_sorted:
  assumes "add_all m0 calls = (Returned v, m)"
  shows "\<exists>l. show_tasks m = (Returned PyNone, map task_line l, m)
           \<and> mset l = mset (tasks m)
           \<and> pending m = pending m0 + mset (map requested calls)
           \<and> sorted_wrt (\<lambda>x y. prio x < prio y \<or> (prio x = prio y \<and> due_key x \<le> due_key y)) l
           \<and> (\<forall>i j. i < j \<and> j < length l \<and> prio (l ! i) = prio (l ! j)
                    \<and> due_date (task (l ! j)) = None
                  \<longrightarrow> due_date (task (l ! i)) = None \<or> due_date (task (l ! i)) = Some [])
           \<and> (\<forall>k. filter (\<lambda>x. sort_key_of x = k) l = filter (\<lambda>x. sort_key_of x = k) (tasks m))"
proof -
  let ?l = "sort_key sort_key_of (tasks m)"
  have srt: "sorted_wrt (\<lambda>x y. prio x < prio y \<or> (prio x = prio y \<and> due_key x \<le> due_key y)) ?l"
    by (rule show_tasks_order)
  have nulls: "due_date (task (?l ! i)) = None \<or> due_date (task (?l ! i)) = Some []"
    if "i < j" "j < length ?l" "prio (?l ! i) = prio (?l ! j)" "due_date (task (?l ! j)) = None"
    for i j
  proof -
    from srt that(1,2)
    have "prio (?l ! i) < prio (?l ! j) \<or> (prio (?l ! i) = prio (?l ! j) \<and> due_key (?l ! i) \<le> due_key (?l ! j))"
      by (rule sorted_wrt_nth_less)
    with that(3) have "due_key (?l ! i) \<le> due_key (?l ! j)"
      by simp
    with that(4) have "due_key (?l ! i) = []"
      by (simp add: due_key_def)
    then show ?thesis
      by (simp add: due_key_def split: option.splits)
  qed
  show ?thesis
  proof (intro exI [of _ ?l] conjI allI impI)
    show "show_tasks m = (Returned PyNone, map task_line ?l, m)"
      by (simp add: show_tasks_def)
    show "mset ?l = mset (tasks m)"
      by simp
    show "pending m = pending m0 + mset (map requested calls)"
      using assms by (rule add_all_pending)
    show "sorted_wrt (\<lambda>x y. prio x < prio y \<or> (prio x = prio y \<and> due_key x \<le> due_key y)) ?l"
      by (rule srt)
  next
    fix i j
    assume "i < j \<and> j < length ?l \<and> prio (?l ! i) = prio (?l ! j)
              \<and> due_date (task (?l ! j)) = None"
    then have "i < j" "j < length ?l" "prio (?l ! i) = prio (?l ! j)"
      "due_date (task (?l ! j)) = None"
      by simp_all
    then show "due_date (task (?l ! i)) = None \<or> due_date (task (?l ! i)) = Some []"
      by (rule nulls)
  next
    fix k
    show "filter (\<lambda>x. sort_key_of x = k) ?l = filter (\<lambda>x. sort_key_of x = k) (tasks m)"
      by (rule sort_key_stable)
  qed
qed


theorem show_tasks_sorted_witness:
  "fst (add_all \<lparr>tasks = [], completed_tasks = {}, disk = Missing\<rparr>
          [(''a'', PyInt 5, None, Some ''2024-01-01''), (''b'', PyInt (- 3), None, None),
           (''c'', PyInt 5, None, None)]) = Returned PyNone
   \<and> fst (show_tasks (snd (add_all \<lparr>tasks = [], completed_tasks = {}, disk = Missing\<rparr>
          [(''a'', PyInt 5, None, Some ''2024-01-01''), (''b'', PyInt (- 3), None, None),
           (''c'', PyInt 5, None, None)]))) = Returned PyNone
   \<and> fst (snd (show_tasks (snd (add_all \<lparr>tasks = [], completed_tasks = {}, disk = Missing\<rparr>
          [(''a'', PyInt 5, None, Some ''2024-01-01''), (''b'', PyInt (- 3), None, None),
           (''c'', PyInt 5, None, None)]))))
     = [TaskLine ''b'' (- 3) None [], TaskLine ''c'' 5 None [],
        TaskLine ''a'' 5 (Some ''2024-01-01'') []]
   \<and> snd (snd (show_tasks (snd (add_all \<lparr>tasks = [], completed_tasks = {}, disk = Missing\<rparr>
          [(''a'', PyInt 5, None, Some ''2024-01-01''), (''b'', PyInt (- 3), None, None),
           (''c'', PyInt 5, None, None)]))))
     = snd (add_all \<lparr>tasks = [], completed_tasks = {}, disk = Missing\<rparr>
          [(''a'', PyInt 5, None, Some ''2024-01-01''), (''b'', PyInt (- 3), None, None),
           (''c'', PyInt 5, None, None)])"
proof -
  let ?calls = "[(''a'', PyInt 5, None, Some ''2024-01-01''), (''b'', PyInt (- 3), None, None),
           (''c'', PyInt 5, None, None)]"
  let ?r = "add_all \<lparr>tasks = [], completed_tasks = {}, disk = Missing\<rparr> ?calls"
  have ok: "fst ?r = Returned PyNone"
    by code_simp
  then have run: "add_all \<lparr>tasks = [], completed_tasks = {}, disk = Missing\<rparr> ?calls
                  = (Returned PyNone, snd ?r)"
    by (metis prod.collapse)
  from show_tasks_sorted [OF run] obtain l
    where "show_tasks (snd ?r) = (Returned PyNone, map task_line l, snd ?r)"
    by blast
  then have "fst (show_tasks (snd ?r)) = Returned PyNone" "snd (snd (show_tasks (snd ?r))) = snd ?r"
    by simp_all
  moreover have "fst (snd (show_tasks (snd ?r)))
     = [TaskLine ''b'' (- 3) None [], TaskLine ''c'' 5 None [],
        TaskLine ''a'' 5 (Some ''2024-01-01'') []]"
    by code_simp
  ultimately show ?thesis
    using ok by blast
qed

text \<open>
  C3 as stated fails where it orders a missing due date first: after \<open>add_task("a", 0)\<close>,
  \<open>add_task("e", 1, due_date="")\<close> and \<open>add_task("n", 1)\<close>, which all succeed, the task
  \<open>e\<close> with the empty due date is listed before the task \<open>n\<close> that has none.
\<close>

theorem show_tasks_null_first_counterexample:
  "fst (add_all \<lparr>tasks = [], completed_tasks = {}, disk = Missing\<rparr>
          [(''a'', PyInt 0, None, None), (''e'', PyInt 1, None, Some []),
           (''n'', PyInt 1, None, None)]) = Returned PyNone
   \<and> fst (snd (show_tasks (snd (add_all \<lparr>tasks = [], completed_tasks = {}, disk = Missing\<rparr>
          [(''a'', PyInt 0, None, None), (''e'', PyInt 1, None, Some []),
           (''n'', PyInt 1, None, None)]))))
     = [TaskLine ''a'' 0 None [], TaskLine ''e'' 1 (Some []) [], TaskLine ''n'' 1 None []]"
  by code_simp

section \<open>Construction from the file\<close>

lemma init_object:
  assumes "init (Doc ts cs) = Inr m"
  shows "pending m = mset (case ts of None \<Rightarrow> [] | Some l \<Rightarrow> l)
         \<and> completed_tasks m = (case cs of None \<Rightarrow> {} | Some c \<Rightarrow> c)
         \<and> disk m = Doc ts cs"
proof -
  let ?es = "case ts of None \<Rightarrow> [] | Some l \<Rightarrow> l"
  let ?l = "map (\<lambda>(p, t). Entry List p t) ?es"
  obtain r h where hp: "heapify ?l = (r, h)"
    by (cases "heapify ?l")
  with assms have m: "m = \<lparr>tasks = h, completed_tasks = (case cs of None \<Rightarrow> {} | Some c \<Rightarrow> c),
                           disk = Doc ts cs\<rparr>"
    by (cases r) (simp_all add: init_def load_tasks_def)
  from hp have "mset h = mset ?l"
    using heapify_mset [of ?l] by simp
  then have "image_mset (\<lambda>x. (prio x, task x)) (mset h) = image_mset (\<lambda>x. (prio x, task x)) (mset ?l)"
    by simp
  also have "\<dots> = mset ?es"
    by (simp add: comp_def image_mset.compositionality case_prod_beta)
  finally show ?thesis
    by (simp add: m pending_def)
qed

lemma init_object_ok:
  assumes "orderable (map (\<lambda>(p, t). Entry List p t) (case ts of None \<Rightarrow> [] | Some l \<Rightarrow> l))"
  shows "\<exists>m. init (Doc ts cs) = Inr m"
proof -
  let ?l = "map (\<lambda>(p, t). Entry List p t) (case ts of None \<Rightarrow> [] | Some l \<Rightarrow> l)"
  from assms have "fst (heapify ?l) = Returned ()"
    by (rule heapify_ok)
  then obtain h where "heapify ?l = (Returned (), h)"
    by (cases "heapify ?l") simp
  then show ?thesis
    by (simp add: init_def load_tasks_def)
qed

text \<open>
  C10 (amended). \<open>load_tasks\<close> does not validate what it reads. When the file does not
  exist, \<open>TaskManager()\<close> succeeds with no pending task and no completed name. When the
  file exists and its text is not JSON, or is JSON but not an object, the construction fails
  with the exception of the statement that trips (\<open>json.JSONDecodeError\<close>,
  \<open>AttributeError\<close>); the program has no error type of its own. When the file holds a JSON
  object, an absent key is read as the empty list: an object without the key \<open>"tasks"\<close>
  gives a store with no pending task, silently. An object with its entries is loaded as it
  is and heapified: when the construction succeeds, the pending tasks and the completed names
  are those of the file and \<open>self.tasks\<close> is a heap; it does succeed when no two entries
  clash in a comparison.
\<close>

theorem init_outcomes:
  "init Missing = Inr \<lparr>tasks = [], completed_tasks = {}, disk = Missing\<rparr>
   \<and> init NotJSON = Inl JSONDecodeError
   \<and> init NonObject = Inl AttributeError
   \<and> init (Doc None cs)
       = Inr \<lparr>tasks = [], completed_tasks = (case cs of None \<Rightarrow> {} | Some c \<Rightarrow> c),
              disk = Doc None cs\<rparr>
   \<and> (orderable (map (\<lambda>(p, t). Entry List p t) (case ts of None \<Rightarrow> [] | Some l \<Rightarrow> l))
        \<longrightarrow> (\<exists>m. init (Doc ts cs) = Inr m))
   \<and> (init (Doc ts cs) = Inr m \<longrightarrow>
        pending m = mset (case ts of None \<Rightarrow> [] | Some l \<Rightarrow> l)
        \<and> completed_tasks m = (case cs of None \<Rightarrow> {} | Some c \<Rightarrow> c)
        \<and> disk m = Doc ts cs
        \<and> heap_ordered (tasks m))"
proof (intro conjI impI)
  show "init Missing = Inr \<lparr>tasks = [], completed_tasks = {}, disk = Missing\<rparr>"
    by (simp add: init_def load_tasks_def)
  show "init NotJSON = Inl JSONDecodeError"
    by (simp add: init_def load_tasks_def)
  show "init NonObject = Inl AttributeError"
    by (simp add: init_def load_tasks_def)
  show "init (Doc None cs)
       = Inr \<lparr>tasks = [], completed_tasks = (case cs of None \<Rightarrow> {} | Some c \<Rightarrow> c),
              disk = Doc None cs\<rparr>"
    by (simp add: init_def load_tasks_def heapify_def)
next
  assume "orderable (map (\<lambda>(p, t). Entry List p t) (case ts of None \<Rightarrow> [] | Some l \<Rightarrow> l))"
  then show "\<exists>m. init (Doc ts cs) = Inr m"
    by (rule init_object_ok)
next
  assume a: "init (Doc ts cs) = Inr m"
  from init_object [OF a]
  show "pending m = mset (case ts of None \<Rightarrow> [] | Some l \<Rightarrow> l)"
    and "completed_tasks m = (case cs of None \<Rightarrow> {} | Some c \<Rightarrow> c)"
    and "disk m = Doc ts cs"
    by simp_all
  from a show "heap_ordered (tasks m)"
    by (rule init_heap_ordered)
qed

theorem init_outcomes_witness:
  "\<exists>m. init (Doc (Some [(2, \<lparr>name = ''b'', priority = 2, dependencies = [''a''], due_date = None\<rparr>),
                         (1, \<lparr>name = ''a'', priority = 1, dependencies = [], due_date = None\<rparr>)])
                  (Some {''x''})) = Inr m
       \<and> pending m = mset [(2, \<lparr>name = ''b'', priority = 2, dependencies = [''a''], due_date = None\<rparr>),
                            (1, \<lparr>name = ''a'', priority = 1, dependencies = [], due_date = None\<rparr>)]
       \<and> completed_tasks m = {''x''}"
proof -
  let ?ts = "Some [(2, \<lparr>name = ''b'', priority = 2, dependencies = [''a''], due_date = None\<rparr>),
                   (1, \<lparr>name = ''a'', priority = 1, dependencies = [], due_date = None\<rparr>)]"
  let ?cs = "Some {''x''}"
  have o: "orderable (map (\<lambda>(p, t). Entry List p t) (case ?ts of None \<Rightarrow> [] | Some l \<Rightarrow> l))"
    by (simp add: orderable_def)
  with init_outcomes [where ts = ?ts and cs = ?cs] obtain m where m: "init (Doc ?ts ?cs) = Inr m"
    by blast
  with init_outcomes [where ts = ?ts and cs = ?cs and m = m]
  have "pending m = mset (case ?ts of None \<Rightarrow> [] | Some l \<Rightarrow> l)"
    "completed_tasks m = (case ?cs of None \<Rightarrow> {} | Some c \<Rightarrow> c)"
    by blast+
  with m show ?thesis
    by (intro exI [of _ m]) simp
qed

text \<open>
  C10 as stated fails: a file that exists and holds \<open>{}\<close>, or an object whose keys are
  misspelt, is not rejected; the construction succeeds with an empty store.
\<close>

theorem init_object_without_keys_counterexample:
  "init (Doc None None) = Inr \<lparr>tasks = [], completed_tasks = {}, disk = Doc None None\<rparr>"
  by (simp add: init_def load_tasks_def heapify_def)

end
